theory Spec2Isabelle
  imports Complex_Main
begin

section \<open>GPU resource helper (ol/webgl/Helper)\<close>

text \<open>
  The WebGL rendering context is an external collaborator. It is modelled by what the
  helper can observe of it: whether the context is lost, the next fresh object handle,
  and the sequence of calls the helper made. A \<open>create*\<close> call on a lost context
  returns \<open>null\<close>, on an active one a fresh handle.
\<close>

type_synonym handle = "nat option"

datatype target = ARRAY_BUFFER | ELEMENT_ARRAY_BUFFER | OTHER_TARGET nat

datatype array_view = Float32Array | Uint32Array | Uint16Array | NoArray

datatype gl_call =
    GL_createBuffer
  | GL_bindBuffer target handle
  | GL_bufferData target array_view nat
  | GL_deleteBuffer handle
  | GL_createShader nat
  | GL_shaderSource handle string
  | GL_compileShader handle
  | GL_createProgram
  | GL_attachShader handle handle
  | GL_linkProgram handle
  | GL_useProgram handle

record gl_context =
  contextLost :: bool
  nextHandle :: nat
  calls :: "gl_call list"

definition gl_do :: "gl_call \<Rightarrow> gl_context \<Rightarrow> gl_context" where
  "gl_do c g = g\<lparr>calls := calls g @ [c]\<rparr>"

definition gl_create :: "gl_call \<Rightarrow> gl_context \<Rightarrow> handle \<times> gl_context" where
  "gl_create c g =
     (if contextLost g then (None, gl_do c g)
      else (Some (nextHandle g), (gl_do c g)\<lparr>nextHandle := Suc (nextHandle g)\<rparr>))"

text \<open>
  Private members keep their source names without the trailing underscore, which a HOL
  name cannot end in. Objects handed to the helper carry the unique identifier \<open>getUid\<close> reads. The string
  key \<open>getUid(f) + '/' + getUid(v)\<close> of the program cache is the pair of the two
  identifiers.
\<close>

record webgl_buffer =
  buf_uid :: nat
  buf_array :: "int list"
  buf_usage :: nat

record shader_object =
  shader_uid :: nat
  shader_type :: nat
  shader_source :: string

record buffer_cache_entry =
  entry_buf :: webgl_buffer
  entry_buffer :: handle

record helper =
  gl :: gl_context
  bufferCache :: "nat \<rightharpoonup> buffer_cache_entry"
  shaderCache :: "nat \<rightharpoonup> handle"
  programCache :: "nat \<times> nat \<rightharpoonup> handle"
  currentProgram :: handle
  hasOESElementIndexUint :: bool
  uniformLocations :: "string \<rightharpoonup> nat"
  attribLocations :: "string \<rightharpoonup> nat"

datatype js_error = TypeError

definition bindBuffer :: "helper \<Rightarrow> target \<Rightarrow> webgl_buffer \<Rightarrow> helper" where
  "bindBuffer h tgt buf =
     (let bufferKey = buf_uid buf;
          (bufferCacheEntry, h1) =
            (case bufferCache h bufferKey of
               Some e \<Rightarrow> (e, h)
             | None \<Rightarrow>
                 (let (buffer, gl1) = gl_create GL_createBuffer (gl h);
                      e = \<lparr>entry_buf = buf, entry_buffer = buffer\<rparr>
                  in (e, h\<lparr>gl := gl1, bufferCache := (bufferCache h)(bufferKey \<mapsto> e)\<rparr>)));
          gl2 = gl_do (GL_bindBuffer tgt (entry_buffer bufferCacheEntry)) (gl h1);
          arrayBuffer =
            (if tgt = ARRAY_BUFFER then Float32Array
             else if tgt = ELEMENT_ARRAY_BUFFER then
               (if hasOESElementIndexUint h1 then Uint32Array else Uint16Array)
             else NoArray)
      in h1\<lparr>gl := gl_do (GL_bufferData tgt arrayBuffer (buf_usage buf)) gl2\<rparr>)"

text \<open>
  \<open>deleteBuffer\<close> reads \<open>bufferCacheEntry.buffer\<close> whenever the context is not lost;
  on an entry that is \<open>undefined\<close> that property access throws a TypeError, and the
  \<open>delete\<close> after it is not reached.
\<close>

definition deleteBuffer :: "helper \<Rightarrow> webgl_buffer \<Rightarrow> js_error + helper" where
  "deleteBuffer h buf =
     (let bufferKey = buf_uid buf;
          bufferCacheEntry = bufferCache h bufferKey
      in if \<not> contextLost (gl h) then
           (case bufferCacheEntry of
              None \<Rightarrow> Inl TypeError
            | Some e \<Rightarrow>
                Inr (h\<lparr>gl := gl_do (GL_deleteBuffer (entry_buffer e)) (gl h),
                       bufferCache := (bufferCache h)(bufferKey := None)\<rparr>))
         else Inr (h\<lparr>bufferCache := (bufferCache h)(bufferKey := None)\<rparr>))"

definition getShader :: "helper \<Rightarrow> shader_object \<Rightarrow> handle \<times> helper" where
  "getShader h shaderObject =
     (let shaderKey = shader_uid shaderObject
      in case shaderCache h shaderKey of
           Some s \<Rightarrow> (s, h)
         | None \<Rightarrow>
             (let (shader, gl1) = gl_create (GL_createShader (shader_type shaderObject)) (gl h);
                  gl2 = gl_do (GL_shaderSource shader (shader_source shaderObject)) gl1;
                  gl3 = gl_do (GL_compileShader shader) gl2
              in (shader, h\<lparr>gl := gl3, shaderCache := (shaderCache h)(shaderKey \<mapsto> shader)\<rparr>)))"

definition useProgram :: "helper \<Rightarrow> handle \<Rightarrow> bool \<times> helper" where
  "useProgram h program =
     (if program = currentProgram h then (False, h)
      else (True, h\<lparr>gl := gl_do (GL_useProgram program) (gl h),
                     currentProgram := program,
                     uniformLocations := Map.empty,
                     attribLocations := Map.empty\<rparr>))"

definition getProgram :: "helper \<Rightarrow> shader_object \<Rightarrow> shader_object \<Rightarrow> handle \<times> helper" where
  "getProgram h fragmentShaderObject vertexShaderObject =
     (let programKey = (shader_uid fragmentShaderObject, shader_uid vertexShaderObject)
      in case programCache h programKey of
           Some p \<Rightarrow> (p, h)
         | None \<Rightarrow>
             (let (program, gl1) = gl_create GL_createProgram (gl h);
                  h1 = h\<lparr>gl := gl1\<rparr>;
                  (fs, h2) = getShader h1 fragmentShaderObject;
                  h3 = h2\<lparr>gl := gl_do (GL_attachShader program fs) (gl h2)\<rparr>;
                  (vs, h4) = getShader h3 vertexShaderObject;
                  h5 = h4\<lparr>gl := gl_do (GL_attachShader program vs) (gl h4)\<rparr>;
                  h6 = h5\<lparr>gl := gl_do (GL_linkProgram program) (gl h5)\<rparr>
              in (program, h6\<lparr>programCache := (programCache h6)(programKey \<mapsto> program)\<rparr>)))"

definition handleWebGLContextLost :: "helper \<Rightarrow> helper" where
  "handleWebGLContextLost h =
     h\<lparr>bufferCache := Map.empty, shaderCache := Map.empty,
       programCache := Map.empty, currentProgram := None\<rparr>"

text \<open>The calls a helper made after a given earlier state of the same context.\<close>

definition calls_since :: "helper \<Rightarrow> helper \<Rightarrow> gl_call list" where
  "calls_since h0 h1 = drop (length (calls (gl h0))) (calls (gl h1))"

definition new_helper :: "bool \<Rightarrow> helper" where
  "new_helper oes =
     \<lparr>gl = \<lparr>contextLost = False, nextHandle = 0, calls = []\<rparr>,
      bufferCache = Map.empty, shaderCache = Map.empty, programCache = Map.empty,
      currentProgram = None, hasOESElementIndexUint = oes,
      uniformLocations = Map.empty, attribLocations = Map.empty\<rparr>"

section \<open>Builder group (ol/render/canvas/BuilderGroup)\<close>

datatype ReplayType = Circle | Default | Image | LineString | Polygon | Text

datatype builder_class =
    CanvasBuilder
  | CanvasImageBuilder
  | CanvasLineStringBuilder
  | CanvasPolygonBuilder
  | CanvasTextBuilder

fun BATCH_CONSTRUCTORS :: "ReplayType \<Rightarrow> builder_class" where
  "BATCH_CONSTRUCTORS Circle = CanvasPolygonBuilder"
| "BATCH_CONSTRUCTORS Default = CanvasBuilder"
| "BATCH_CONSTRUCTORS Image = CanvasImageBuilder"
| "BATCH_CONSTRUCTORS LineString = CanvasLineStringBuilder"
| "BATCH_CONSTRUCTORS Polygon = CanvasPolygonBuilder"
| "BATCH_CONSTRUCTORS Text = CanvasTextBuilder"

text \<open>
  A z-index is a number or \<open>undefined\<close>. The numbers are a type parameter \<open>'n\<close> of the
  model, and \<open>Number.prototype.toString\<close>, a built-in of the language, is the parameter
  \<open>toString\<close> of \<open>getBuilder\<close>. On the integers it is \<open>int_toString\<close>: the decimal
  digits, with a leading minus sign for a negative number.
\<close>

definition digit_char :: "nat \<Rightarrow> char" where
  "digit_char d = ''0123456789'' ! d"

fun nat_toString :: "nat \<Rightarrow> string" where
  "nat_toString n =
     (if n < 10 then [digit_char n] else nat_toString (n div 10) @ [digit_char (n mod 10)])"

declare nat_toString.simps [simp del]

definition int_toString :: "int \<Rightarrow> string" where
  "int_toString z = (if z < 0 then CHR ''-'' # nat_toString (nat (- z)) else nat_toString (nat z))"

text \<open>
  Builders are objects with an identity: the group keeps the instances it constructed
  in a store, and the nested dictionary \<open>buildersByZIndex_\<close> holds references (store
  indices). Two references are the same Builder instance exactly when they are equal.
\<close>

record builder_group =
  buildersByZIndex :: "string \<rightharpoonup> (ReplayType \<rightharpoonup> nat)"
  constructed :: "builder_class list"

definition new_builder_group :: builder_group where
  "new_builder_group = \<lparr>buildersByZIndex = Map.empty, constructed = []\<rparr>"

definition zIndexKey_of :: "('n \<Rightarrow> string) \<Rightarrow> 'n option \<Rightarrow> string" where
  "zIndexKey_of toString zIndex = (case zIndex of Some z \<Rightarrow> toString z | None \<Rightarrow> ''0'')"

definition getBuilder ::
  "('n \<Rightarrow> string) \<Rightarrow> builder_group \<Rightarrow> 'n option \<Rightarrow> ReplayType \<Rightarrow> nat \<times> builder_group" where
  "getBuilder toString g zIndex replayType =
     (let zIndexKey = zIndexKey_of toString zIndex;
          (replays, g1) =
            (case buildersByZIndex g zIndexKey of
               None \<Rightarrow> (Map.empty, g\<lparr>buildersByZIndex := (buildersByZIndex g)(zIndexKey \<mapsto> Map.empty)\<rparr>)
             | Some r \<Rightarrow> (r, g))
      in case replays replayType of
           None \<Rightarrow>
             (let replay = length (constructed g1)
              in (replay,
                  g1\<lparr>constructed := constructed g1 @ [BATCH_CONSTRUCTORS replayType],
                     buildersByZIndex :=
                       (buildersByZIndex g1)(zIndexKey \<mapsto> replays(replayType \<mapsto> replay))\<rparr>))
         | Some replay \<Rightarrow> (replay, g1))"

text \<open>The groups that calls of \<open>getBuilder\<close> make of a new one.\<close>

inductive group_reachable :: "('n \<Rightarrow> string) \<Rightarrow> builder_group \<Rightarrow> bool"
  for toString :: "'n \<Rightarrow> string" where
  reach_new: "group_reachable toString new_builder_group"
| reach_get: "group_reachable toString g \<Longrightarrow>
              group_reachable toString (snd (getBuilder toString g zIndex replayType))"

section \<open>Hit-detection circle mask (ol/render/canvas/ExecutorGroup)\<close>

text \<open>
  A circle array is an array of rows; a cell is \<open>true\<close> or a hole (\<open>undefined\<close>).
  Writing \<open>array[i][y] = true\<close> throws when \<open>array[i]\<close> is \<open>undefined\<close>, extends
  the row when \<open>y\<close> is past its end, and leaves the elements alone when \<open>y\<close> is
  negative (it sets a property that is not an element).
\<close>

type_synonym circle_array = "bool option list list"

definition set_cell :: "circle_array \<Rightarrow> int \<Rightarrow> int \<Rightarrow> js_error + circle_array" where
  "set_cell array i y =
     (if i < 0 \<or> int (length array) \<le> i then Inl TypeError
      else
        (let row = array ! nat i;
             row' = (if y < 0 then row
                     else if y < int (length row) then row[nat y := Some True]
                     else row @ replicate (nat y - length row) None @ [Some True])
         in Inr (array[nat i := row'])))"

function fill_from :: "int \<Rightarrow> int \<Rightarrow> int \<Rightarrow> circle_array \<Rightarrow> js_error + circle_array" where
  "fill_from i bound y array =
     (if i < bound then
        (case set_cell array i y of
           Inl e \<Rightarrow> Inl e
         | Inr array' \<Rightarrow> fill_from (i + 1) bound y array')
      else Inr array)"
  by pat_completeness auto
termination
  by (relation "measure (\<lambda>(i, bound, y, array). nat (bound - i))") auto

declare fill_from.simps [simp del]

definition fillCircleArrayRowToMiddle :: "circle_array \<Rightarrow> int \<Rightarrow> int \<Rightarrow> js_error + circle_array" where
  "fillCircleArrayRowToMiddle array x y =
     (let radius = int (length array div 2)
      in if x \<ge> radius then fill_from radius x y array
         else if x < radius then fill_from (x + 1) radius y array
         else Inr array)"

text \<open>The eight calls of one iteration of the midpoint loop, stopping at the first throw.\<close>

fun fill_all :: "(int \<times> int) list \<Rightarrow> circle_array \<Rightarrow> js_error + circle_array" where
  "fill_all [] array = Inr array"
| "fill_all ((x, y) # ps) array =
     (case fillCircleArrayRowToMiddle array x y of
        Inl e \<Rightarrow> Inl e
      | Inr array' \<Rightarrow> fill_all ps array')"

definition octants :: "int \<Rightarrow> int \<Rightarrow> int \<Rightarrow> (int \<times> int) list" where
  "octants radius x y =
     [(radius + x, radius + y), (radius + y, radius + x),
      (radius - y, radius + x), (radius - x, radius + y),
      (radius - x, radius - y), (radius - y, radius - x),
      (radius + y, radius - x), (radius + x, radius - y)]"

function circle_loop :: "int \<Rightarrow> int \<Rightarrow> int \<Rightarrow> int \<Rightarrow> circle_array \<Rightarrow> js_error + circle_array" where
  "circle_loop radius x y error arr =
     (if x \<ge> y then
        (case fill_all (octants radius x y) arr of
           Inl e \<Rightarrow> Inl e
         | Inr arr' \<Rightarrow>
             (let y' = y + 1;
                  error' = error + (1 + 2 * y')
              in if 2 * (error' - x) + 1 > 0
                 then circle_loop radius (x - 1) y' (error' + (1 - 2 * (x - 1))) arr'
                 else circle_loop radius x y' error' arr'))
      else Inr arr)"
  by pat_completeness auto
termination
  by (relation "measure (\<lambda>(radius, x, y, error, arr). nat (x - y + 1))") auto

declare circle_loop.simps [simp del]

text \<open>
  The module-level cache maps a radius to the array object stored for it; array
  objects live in a store and are named by their index, so that "the identical array"
  is equality of references.
\<close>

record circle_cache =
  arrays :: "circle_array list"
  circleArrayCache :: "nat \<rightharpoonup> nat"

definition initial_circle_cache :: circle_cache where
  "initial_circle_cache = \<lparr>arrays = [[[Some True]]], circleArrayCache = [0 \<mapsto> 0]\<rparr>"

definition getCircleArray :: "nat \<Rightarrow> circle_cache \<Rightarrow> js_error + (nat \<times> circle_cache)" where
  "getCircleArray radius c =
     (case circleArrayCache c radius of
        Some a \<Rightarrow> Inr (a, c)
      | None \<Rightarrow>
          (let arraySize = radius * 2 + 1;
               arr = replicate arraySize (replicate arraySize None)
           in case circle_loop (int radius) (int radius) 0 0 arr of
                Inl e \<Rightarrow> Inl e
              | Inr arr' \<Rightarrow>
                  (let a = length (arrays c)
                   in Inr (a, c\<lparr>arrays := arrays c @ [arr'],
                                circleArrayCache := (circleArrayCache c)(radius \<mapsto> a)\<rparr>))))"

inductive cache_reachable :: "circle_cache \<Rightarrow> bool" where
  cache_initial: "cache_reachable initial_circle_cache"
| cache_get: "cache_reachable c \<Longrightarrow> getCircleArray radius c = Inr (a, c') \<Longrightarrow> cache_reachable c'"

text \<open>The Builder reference stored under a z-index key and a kind, if there is one.\<close>

definition lookup_builder :: "builder_group \<Rightarrow> string \<Rightarrow> ReplayType \<Rightarrow> nat option" where
  "lookup_builder g key kind = (case buildersByZIndex g key of None \<Rightarrow> None | Some r \<Rightarrow> r kind)"

text \<open>
  Every stored reference names a constructed Builder, of the class that
  \<open>BATCH_CONSTRUCTORS\<close> gives for the kind it is stored under; no Builder is stored
  under two (key, kind) pairs, and every constructed Builder is stored under some pair.
\<close>

definition group_inv :: "builder_group \<Rightarrow> bool" where
  "group_inv g \<longleftrightarrow>
     (\<forall>key kind r. lookup_builder g key kind = Some r \<longrightarrow> r < length (constructed g)) \<and>
     (\<forall>key kind key' kind' r. lookup_builder g key kind = Some r \<and> lookup_builder g key' kind' = Some r
         \<longrightarrow> key = key' \<and> kind = kind') \<and>
     (\<forall>r < length (constructed g). \<exists>key kind. lookup_builder g key kind = Some r) \<and>
     (\<forall>key kind r. lookup_builder g key kind = Some r
         \<longrightarrow> constructed g ! r = BATCH_CONSTRUCTORS kind)"

text \<open>Shape of a circle array: \<open>n\<close> rows of length \<open>n\<close>, no cell holding \<open>false\<close>.\<close>

definition sq :: "nat \<Rightarrow> circle_array \<Rightarrow> bool" where
  "sq n arr \<longleftrightarrow> length arr = n \<and> (\<forall>row \<in> set arr. length row = n \<and> Some False \<notin> set row)"

text \<open>Cells that are \<open>true\<close> stay \<open>true\<close>.\<close>

definition keeps :: "circle_array \<Rightarrow> circle_array \<Rightarrow> bool" where
  "keeps arr arr' \<longleftrightarrow> (\<forall>a b. arr ! a ! b = Some True \<longrightarrow> arr' ! a ! b = Some True)"

definition good_circle :: "nat \<Rightarrow> circle_array \<Rightarrow> bool" where
  "good_circle r arr \<longleftrightarrow> sq (2 * r + 1) arr \<and> arr ! r ! r = Some True"

text \<open>What every cache reachable from the initial one satisfies.\<close>

definition cache_inv :: "circle_cache \<Rightarrow> bool" where
  "cache_inv c \<longleftrightarrow>
     circleArrayCache c 0 \<noteq> None \<and>
     (\<forall>r a. circleArrayCache c r = Some a \<longrightarrow> a < length (arrays c) \<and> good_circle r (arrays c ! a))"

section \<open>Instructions and the canvas builder (ol/render/canvas/Builder, LineStringBuilder)\<close>

text \<open>
  A JavaScript number that may be \<open>undefined\<close> is a \<open>real option\<close>; reading an array
  past its end gives \<open>undefined\<close>.
\<close>

definition js_nth :: "'a list \<Rightarrow> nat \<Rightarrow> 'a option" where
  "js_nth xs i = (if i < length xs then Some (xs ! i) else None)"

type_synonym extent = "real \<times> real \<times> real \<times> real"

type_synonym coord = "real option \<times> real option"

text \<open>
  A feature as the replay sees it: its unique identifier and, when \<open>getGeometry()\<close>
  gives a geometry, that geometry's extent.
\<close>

record feature =
  feature_uid :: nat
  feature_extent :: "extent option"

record stroke_payload =
  sp_strokeStyle :: "string option"
  sp_lineWidth :: "real option"
  sp_lineCap :: "string option"
  sp_lineJoin :: "string option"
  sp_miterLimit :: "real option"
  sp_lineDash :: "real list option"
  sp_lineDashOffset :: "real option"

text \<open>
  The opcodes of \<open>CanvasInstruction\<close> with the positional payload the modelled code
  reads: \<open>BEGIN_GEOMETRY\<close> carries the feature and the patchable skip index (position 2),
  \<open>MOVE_TO_LINE_TO\<close> a range of the coordinate buffer, \<open>SET_FILL_STYLE\<close> the style and
  the alignment flag. Of \<open>CUSTOM\<close>, \<open>DRAW_IMAGE\<close> and \<open>DRAW_CHARS\<close> only the
  coordinate range is kept.
\<close>

datatype instruction =
    BEGIN_GEOMETRY feature nat
  | BEGIN_PATH
  | CIRCLE nat
  | CLOSE_PATH
  | CUSTOM nat nat
  | DRAW_IMAGE nat nat
  | DRAW_CHARS nat nat
  | END_GEOMETRY feature
  | FILL
  | MOVE_TO_LINE_TO nat nat
  | SET_FILL_STYLE string bool
  | SET_STROKE_STYLE stroke_payload
  | STROKE

definition beginPathInstruction :: instruction where
  "beginPathInstruction = BEGIN_PATH"

definition strokeInstruction :: instruction where
  "strokeInstruction = STROKE"

record fill_stroke_state =
  currentStrokeStyle :: "string option"
  currentLineCap :: "string option"
  currentLineDash :: "real list option"
  currentLineDashOffset :: "real option"
  currentLineJoin :: "string option"
  currentLineWidth :: "real option"
  currentMiterLimit :: "real option"
  lastStroke :: "nat option"
  strokeStyle :: "string option"
  lineCap :: "string option"
  lineDash :: "real list option"
  lineDashOffset :: "real option"
  lineJoin :: "string option"
  lineWidth :: "real option"
  miterLimit :: "real option"

text \<open>
  The builder. \<open>beginGeometryInstruction1_\<close> and \<open>beginGeometryInstruction2_\<close> are
  references to the pending \<open>BEGIN_GEOMETRY\<close> instruction objects of the two streams;
  here each is the index of that instruction in its stream. \<open>state\<close> is \<open>null\<close> after
  \<open>finish\<close>.
\<close>

record builder =
  pixelRatio :: real
  instructions :: "instruction list"
  hitDetectionInstructions :: "instruction list"
  coordinates :: "real option list"
  beginGeometryInstruction1 :: "nat option"
  beginGeometryInstruction2 :: "nat option"
  state :: "fill_stroke_state option"

text \<open>
  Modelled from the spec: the relationship enum of \<open>ol/extent/Relationship\<close> and the
  classifier \<open>coordinateRelationship\<close> of \<open>ol/extent\<close> are not among the sources. A
  relationship is a number, \<open>INTERSECTING\<close> is the one for a point inside the extent, and
  the classifier applied to the builder's buffered extent is the parameter \<open>rel\<close> of the
  functions below.
\<close>

type_synonym Relationship = nat

definition INTERSECTING :: Relationship where
  "INTERSECTING = 1"

text \<open>
  The loop of \<open>appendFlatCoordinates\<close>. \<open>cs\<close> is \<open>this.coordinates\<close>, written at its
  end (\<open>myEnd\<close> is its length throughout). With a stride of 0 the loop never ends once
  it is entered: the result is \<open>None\<close>. The buffered extent that the classifier is
  applied to is cached by \<open>getBufferedMaxExtent\<close>; that cache is not part of the model.
\<close>

function append_loop ::
  "(coord \<Rightarrow> Relationship) \<Rightarrow> real list \<Rightarrow> nat \<Rightarrow> nat \<Rightarrow> nat \<Rightarrow> coord \<Rightarrow> Relationship option
     \<Rightarrow> bool \<Rightarrow> real option list \<Rightarrow> (nat \<times> coord \<times> bool \<times> real option list) option" where
  "append_loop rel flatCoordinates endIdx stride i lastCoord lastRel skipped cs =
     (if i < endIdx then
        if stride = 0 then None
        else
          (let nextCoord = (js_nth flatCoordinates i, js_nth flatCoordinates (i + 1));
               nextRel = rel nextCoord
           in if Some nextRel \<noteq> lastRel then
                append_loop rel flatCoordinates endIdx stride (i + stride) nextCoord (Some nextRel) False
                  ((if skipped then cs @ [fst lastCoord, snd lastCoord] else cs)
                     @ [fst nextCoord, snd nextCoord])
              else if nextRel = INTERSECTING then
                append_loop rel flatCoordinates endIdx stride (i + stride) nextCoord (Some nextRel) False
                  (cs @ [fst nextCoord, snd nextCoord])
              else
                append_loop rel flatCoordinates endIdx stride (i + stride) nextCoord (Some nextRel) True cs)
      else Some (i, lastCoord, skipped, cs))"
  by pat_completeness auto
termination
  by (relation "measure (\<lambda>(rel, fc, endIdx, stride, i, lc, lr, sk, cs). endIdx - i)") auto

declare append_loop.simps [simp del]

definition appendFlatCoordinates ::
  "(coord \<Rightarrow> Relationship) \<Rightarrow> builder \<Rightarrow> real list \<Rightarrow> nat \<Rightarrow> nat \<Rightarrow> nat \<Rightarrow> bool \<Rightarrow> bool
     \<Rightarrow> (nat \<times> builder) option" where
  "appendFlatCoordinates rel b flatCoordinates offset endIdx stride closedRing skipFirst =
     (let offset = (if skipFirst then offset + stride else offset);
          lastCoord = (js_nth flatCoordinates offset, js_nth flatCoordinates (offset + 1))
      in case append_loop rel flatCoordinates endIdx stride (offset + stride) lastCoord None True
                (coordinates b) of
           None \<Rightarrow> None
         | Some (i, lastCoord, skipped, cs) \<Rightarrow>
             (let cs = (if (closedRing \<and> skipped) \<or> i = offset + stride
                        then cs @ [fst lastCoord, snd lastCoord] else cs)
              in Some (length cs, b\<lparr>coordinates := cs\<rparr>)))"

text \<open>
  The builder's drawing calls either do not return (\<open>None\<close>, the loop above), throw
  (\<open>Some (Inl e)\<close>) or return the builder they changed (\<open>Some (Inr b)\<close>).
\<close>

type_synonym 'a outcome = "(js_error + 'a) option"

definition beginGeometry :: "builder \<Rightarrow> feature \<Rightarrow> builder" where
  "beginGeometry b f =
     b\<lparr>beginGeometryInstruction1 := Some (length (instructions b)),
       instructions := instructions b @ [BEGIN_GEOMETRY f 0],
       beginGeometryInstruction2 := Some (length (hitDetectionInstructions b)),
       hitDetectionInstructions := hitDetectionInstructions b @ [BEGIN_GEOMETRY f 0]\<rparr>"

text \<open>Writing position 2 of an instruction object; only \<open>BEGIN_GEOMETRY\<close> keeps a position 2 here.\<close>

fun set_skip :: "instruction \<Rightarrow> nat \<Rightarrow> instruction" where
  "set_skip (BEGIN_GEOMETRY f s) n = BEGIN_GEOMETRY f n"
| "set_skip ins n = ins"

definition endGeometry :: "builder \<Rightarrow> feature \<Rightarrow> js_error + builder" where
  "endGeometry b f =
     (case beginGeometryInstruction1 b of
        None \<Rightarrow> Inl TypeError
      | Some r1 \<Rightarrow>
          (let b1 = b\<lparr>instructions :=
                        (instructions b)[r1 := set_skip (instructions b ! r1) (length (instructions b))],
                      beginGeometryInstruction1 := None\<rparr>
           in case beginGeometryInstruction2 b1 of
                None \<Rightarrow> Inl TypeError
              | Some r2 \<Rightarrow>
                  (let b2 = b1\<lparr>hitDetectionInstructions :=
                                 (hitDetectionInstructions b1)
                                   [r2 := set_skip (hitDetectionInstructions b1 ! r2)
                                            (length (hitDetectionInstructions b1))],
                               beginGeometryInstruction2 := None\<rparr>
                   in Inr (b2\<lparr>instructions := instructions b2 @ [END_GEOMETRY f],
                              hitDetectionInstructions :=
                                hitDetectionInstructions b2 @ [END_GEOMETRY f]\<rparr>))))"

text \<open>
  \<open>applyPixelRatio\<close> maps over the dash array unless the pixel ratio is 1; on \<open>null\<close>
  the call of \<open>map\<close> throws.
\<close>

definition applyPixelRatio :: "builder \<Rightarrow> real list option \<Rightarrow> js_error + real list option" where
  "applyPixelRatio b dashArray =
     (if pixelRatio b = 1 then Inr dashArray
      else case dashArray of
             None \<Rightarrow> Inl TypeError
           | Some ds \<Rightarrow> Inr (Some (map (\<lambda>dash. dash * pixelRatio b) ds)))"

definition createStroke :: "builder \<Rightarrow> fill_stroke_state \<Rightarrow> js_error + instruction" where
  "createStroke b s =
     (case applyPixelRatio b (lineDash s) of
        Inl e \<Rightarrow> Inl e
      | Inr dash \<Rightarrow>
          Inr (SET_STROKE_STYLE
                 \<lparr>sp_strokeStyle = strokeStyle s,
                  sp_lineWidth = map_option (\<lambda>w. w * pixelRatio b) (lineWidth s),
                  sp_lineCap = lineCap s,
                  sp_lineJoin = lineJoin s,
                  sp_miterLimit = miterLimit s,
                  sp_lineDash = dash,
                  sp_lineDashOffset = map_option (\<lambda>w. w * pixelRatio b) (lineDashOffset s)\<rparr>))"

text \<open>\<open>CanvasLineStringBuilder.applyStroke\<close>, with the base class's \<open>applyStroke\<close> inlined.\<close>

definition applyStroke :: "builder \<Rightarrow> fill_stroke_state \<Rightarrow> js_error + builder \<times> fill_stroke_state" where
  "applyStroke b s =
     (let b1 = (if lastStroke s \<noteq> None \<and> lastStroke s \<noteq> Some (length (coordinates b))
                then b\<lparr>instructions := instructions b @ [strokeInstruction]\<rparr> else b);
          s1 = s\<lparr>lastStroke := Some 0\<rparr>
      in case createStroke b1 s1 of
           Inl e \<Rightarrow> Inl e
         | Inr ins \<Rightarrow>
             Inr (b1\<lparr>instructions := instructions b1 @ [ins, beginPathInstruction]\<rparr>, s1))"

text \<open>
  The dash arrays are compared by \<open>lineDash != state.currentLineDash &&
  !equals(state.currentLineDash, lineDash)\<close>. Modelled from the spec: \<open>equals\<close> of
  \<open>ol/array\<close> is not among the sources; it compares two arrays element by element and
  reads \<open>length\<close> of both, which throws when one of them is \<open>null\<close> or \<open>undefined\<close>.
\<close>

definition lineDash_differs :: "real list option \<Rightarrow> real list option \<Rightarrow> js_error + bool" where
  "lineDash_differs dash currentDash =
     (case (dash, currentDash) of
        (None, None) \<Rightarrow> Inr False
      | (Some a, Some c) \<Rightarrow> Inr (a \<noteq> c)
      | _ \<Rightarrow> Inl TypeError)"

definition strokeChanged :: "fill_stroke_state \<Rightarrow> js_error + bool" where
  "strokeChanged s =
     (if currentStrokeStyle s \<noteq> strokeStyle s \<or> currentLineCap s \<noteq> lineCap s then Inr True
      else case lineDash_differs (lineDash s) (currentLineDash s) of
             Inl e \<Rightarrow> Inl e
           | Inr d \<Rightarrow>
               Inr (d \<or> currentLineDashOffset s \<noteq> lineDashOffset s \<or>
                    currentLineJoin s \<noteq> lineJoin s \<or>
                    currentLineWidth s \<noteq> lineWidth s \<or>
                    currentMiterLimit s \<noteq> miterLimit s))"

definition updateStrokeStyle :: "builder \<Rightarrow> fill_stroke_state \<Rightarrow> js_error + builder \<times> fill_stroke_state" where
  "updateStrokeStyle b s =
     (case strokeChanged s of
        Inl e \<Rightarrow> Inl e
      | Inr False \<Rightarrow> Inr (b, s)
      | Inr True \<Rightarrow>
          (case (if strokeStyle s \<noteq> None then applyStroke b s else Inr (b, s)) of
             Inl e \<Rightarrow> Inl e
           | Inr (b1, s1) \<Rightarrow>
               Inr (b1, s1\<lparr>currentStrokeStyle := strokeStyle s,
                           currentLineCap := lineCap s,
                           currentLineDash := lineDash s,
                           currentLineDashOffset := lineDashOffset s,
                           currentLineJoin := lineJoin s,
                           currentLineWidth := lineWidth s,
                           currentMiterLimit := miterLimit s\<rparr>)))"

text \<open>\<open>drawFlatCoordinates_\<close> of the LineString builder.\<close>

definition drawFlatCoordinates ::
  "(coord \<Rightarrow> Relationship) \<Rightarrow> builder \<Rightarrow> real list \<Rightarrow> nat \<Rightarrow> nat \<Rightarrow> nat \<Rightarrow> (nat \<times> builder) option" where
  "drawFlatCoordinates rel b flatCoordinates offset endIdx stride =
     (let myBegin = length (coordinates b)
      in case appendFlatCoordinates rel b flatCoordinates offset endIdx stride False False of
           None \<Rightarrow> None
         | Some (myEnd, b1) \<Rightarrow>
             (let moveToLineToInstruction = MOVE_TO_LINE_TO myBegin myEnd
              in Some (endIdx,
                   b1\<lparr>instructions := instructions b1 @ [moveToLineToInstruction],
                      hitDetectionInstructions :=
                        hitDetectionInstructions b1 @ [moveToLineToInstruction]\<rparr>)))"

record geometry =
  getFlatCoordinates :: "real list"
  getStride :: nat
  getEnds :: "nat list"

definition hitStroke :: "fill_stroke_state \<Rightarrow> instruction" where
  "hitStroke s =
     SET_STROKE_STYLE
       \<lparr>sp_strokeStyle = strokeStyle s, sp_lineWidth = lineWidth s, sp_lineCap = lineCap s,
        sp_lineJoin = lineJoin s, sp_miterLimit = miterLimit s, sp_lineDash = lineDash s,
        sp_lineDashOffset = lineDashOffset s\<rparr>"

definition drawLineString ::
  "(coord \<Rightarrow> Relationship) \<Rightarrow> builder \<Rightarrow> geometry \<Rightarrow> feature \<Rightarrow> builder outcome" where
  "drawLineString rel b lineStringGeometry f =
     (case state b of
        None \<Rightarrow> Some (Inl TypeError)
      | Some s \<Rightarrow>
          if strokeStyle s = None \<or> lineWidth s = None then Some (Inr b)
          else
            (case updateStrokeStyle b s of
               Inl e \<Rightarrow> Some (Inl e)
             | Inr (b1, s1) \<Rightarrow>
                 (let b2 = beginGeometry (b1\<lparr>state := Some s1\<rparr>) f;
                      b3 = b2\<lparr>hitDetectionInstructions :=
                                hitDetectionInstructions b2 @ [hitStroke s1, beginPathInstruction]\<rparr>;
                      fc = getFlatCoordinates lineStringGeometry
                  in case drawFlatCoordinates rel b3 fc 0 (length fc) (getStride lineStringGeometry) of
                       None \<Rightarrow> None
                     | Some (_, b4) \<Rightarrow>
                         Some (endGeometry
                                 (b4\<lparr>hitDetectionInstructions :=
                                       hitDetectionInstructions b4 @ [strokeInstruction]\<rparr>) f))))"

text \<open>The loop of \<open>drawMultiLineString\<close> over the ends of the line strings.\<close>

fun drawEnds ::
  "(coord \<Rightarrow> Relationship) \<Rightarrow> builder \<Rightarrow> real list \<Rightarrow> nat \<Rightarrow> nat list \<Rightarrow> nat \<Rightarrow> builder option" where
  "drawEnds rel b fc offset [] stride = Some b"
| "drawEnds rel b fc offset (e # es) stride =
     (case drawFlatCoordinates rel b fc offset e stride of
        None \<Rightarrow> None
      | Some (offset', b1) \<Rightarrow> drawEnds rel b1 fc offset' es stride)"

definition drawMultiLineString ::
  "(coord \<Rightarrow> Relationship) \<Rightarrow> builder \<Rightarrow> geometry \<Rightarrow> feature \<Rightarrow> builder outcome" where
  "drawMultiLineString rel b multiLineStringGeometry f =
     (case state b of
        None \<Rightarrow> Some (Inl TypeError)
      | Some s \<Rightarrow>
          if strokeStyle s = None \<or> lineWidth s = None then Some (Inr b)
          else
            (case updateStrokeStyle b s of
               Inl e \<Rightarrow> Some (Inl e)
             | Inr (b1, s1) \<Rightarrow>
                 (let b2 = beginGeometry (b1\<lparr>state := Some s1\<rparr>) f;
                      b3 = b2\<lparr>hitDetectionInstructions :=
                                hitDetectionInstructions b2 @ [hitStroke s1, beginPathInstruction]\<rparr>
                  in case drawEnds rel b3 (getFlatCoordinates multiLineStringGeometry) 0
                            (getEnds multiLineStringGeometry) (getStride multiLineStringGeometry) of
                       None \<Rightarrow> None
                     | Some b4 \<Rightarrow>
                         Some (endGeometry
                                 (b4\<lparr>hitDetectionInstructions :=
                                       hitDetectionInstructions b4 @ [strokeInstruction]\<rparr>) f))))"

definition empty_state :: fill_stroke_state where
  "empty_state =
     \<lparr>currentStrokeStyle = None, currentLineCap = None, currentLineDash = None,
      currentLineDashOffset = None, currentLineJoin = None, currentLineWidth = None,
      currentMiterLimit = None, lastStroke = None, strokeStyle = None, lineCap = None,
      lineDash = None, lineDashOffset = None, lineJoin = None, lineWidth = None,
      miterLimit = None\<rparr>"

definition new_builder :: "real \<Rightarrow> builder" where
  "new_builder ratio =
     \<lparr>pixelRatio = ratio, instructions = [], hitDetectionInstructions = [], coordinates = [],
      beginGeometryInstruction1 = None, beginGeometryInstruction2 = None,
      state = Some empty_state\<rparr>"

text \<open>
  The points \<open>appendFlatCoordinates\<close> walks from index \<open>i\<close>: one every \<open>stride\<close>
  numbers while the index is below \<open>endIdx\<close>.
\<close>

definition walked :: "real list \<Rightarrow> nat \<Rightarrow> nat \<Rightarrow> nat \<Rightarrow> coord list" where
  "walked fc endIdx stride i =
     map (\<lambda>j. (js_nth fc (i + j * stride), js_nth fc (i + j * stride + 1)))
       [0..<(endIdx - i + stride - 1) div stride]"

definition flat :: "coord list \<Rightarrow> real option list" where
  "flat ps = concat (map (\<lambda>p. [fst p, snd p]) ps)"

text \<open>
  The loop of \<open>appendFlatCoordinates\<close> read on the list of the points it walks; \<open>out\<close>
  collects the points written.
\<close>

fun keep_points ::
  "(coord \<Rightarrow> Relationship) \<Rightarrow> coord list \<Rightarrow> coord \<Rightarrow> Relationship option \<Rightarrow> bool \<Rightarrow> coord list
     \<Rightarrow> coord \<times> bool \<times> coord list" where
  "keep_points rel [] lastCoord lastRel skipped out = (lastCoord, skipped, out)"
| "keep_points rel (p # ps) lastCoord lastRel skipped out =
     (if Some (rel p) \<noteq> lastRel then
        keep_points rel ps p (Some (rel p)) False ((if skipped then out @ [lastCoord] else out) @ [p])
      else if rel p = INTERSECTING then
        keep_points rel ps p (Some (rel p)) False (out @ [p])
      else keep_points rel ps p (Some (rel p)) True out)"

text \<open>The index of the first point walked: \<open>offset\<close>, moved on by one point when \<open>skipFirst\<close> is set.\<close>

definition first_index :: "nat \<Rightarrow> nat \<Rightarrow> bool \<Rightarrow> nat" where
  "first_index offset stride skipFirst = (if skipFirst then offset + stride else offset)"

text \<open>A classifier for examples: inside the square from (0, 0) to (10, 10) or not.\<close>

definition in_square :: "coord \<Rightarrow> Relationship" where
  "in_square c =
     (case c of
        (Some x, Some y) \<Rightarrow> (if 0 \<le> x \<and> x \<le> 10 \<and> 0 \<le> y \<and> y \<le> 10 then INTERSECTING else 2)
      | _ \<Rightarrow> 0)"

subsection \<open>Reversal of the hit-detection stream\<close>

text \<open>
  Modelled from the spec: \<open>reverseSubArray\<close> of \<open>ol/array\<close> is not among the sources.
  It reverses, in place, the elements of the array from index \<open>beginIdx\<close> to index
  \<open>endIdx\<close>, both included. The spec speaks of sub-ranges bracketed by an END and a BEGIN
  instruction only; for a range that starts below 0 or ends past the array the model gives
  \<open>None\<close>.
\<close>

definition reverseSubArray :: "'a list \<Rightarrow> int \<Rightarrow> nat \<Rightarrow> 'a list option" where
  "reverseSubArray arr beginIdx endIdx =
     (if beginIdx < 0 \<or> length arr \<le> endIdx then None
      else if nat beginIdx < endIdx then
        Some (take (nat beginIdx) arr
              @ rev (take (endIdx + 1 - nat beginIdx) (drop (nat beginIdx) arr))
              @ drop (endIdx + 1) arr)
      else Some arr)"

text \<open>
  Step 2 of \<open>reverseHitDetectionInstructions\<close>, the same code in the Builder and in the
  Executor: \<open>n\<close> is the length read before the loop, \<open>beginIdx\<close> the index of the last
  \<open>END_GEOMETRY\<close> seen, or -1.
\<close>

function reverse_loop :: "nat \<Rightarrow> nat \<Rightarrow> int \<Rightarrow> instruction list \<Rightarrow> instruction list option" where
  "reverse_loop n i beginIdx arr =
     (if i < n then
        (case js_nth arr i of
           None \<Rightarrow> None
         | Some (END_GEOMETRY f) \<Rightarrow> reverse_loop n (i + 1) (int i) arr
         | Some (BEGIN_GEOMETRY f s) \<Rightarrow>
             (case reverseSubArray (arr[i := BEGIN_GEOMETRY f i]) beginIdx i of
                None \<Rightarrow> None
              | Some arr' \<Rightarrow> reverse_loop n (i + 1) (- 1) arr')
         | Some _ \<Rightarrow> reverse_loop n (i + 1) beginIdx arr)
      else Some arr)"
  by pat_completeness auto
termination
  by (relation "measure (\<lambda>(n, i, beginIdx, arr). n - i)") auto

declare reverse_loop.simps [simp del]

definition reverseHitDetectionInstructions :: "instruction list \<Rightarrow> instruction list option" where
  "reverseHitDetectionInstructions hs = reverse_loop (length hs) 0 (- 1) (rev hs)"

text \<open>
  A feature block: the feature and skip index of its \<open>BEGIN_GEOMETRY\<close>, the instructions
  between the brackets, and the feature of its \<open>END_GEOMETRY\<close>.
\<close>

type_synonym block = "feature \<times> nat \<times> instruction list \<times> feature"

fun block_instructions :: "block \<Rightarrow> instruction list" where
  "block_instructions (f, s, body, f') = BEGIN_GEOMETRY f s # body @ [END_GEOMETRY f']"

fun bracket :: "instruction \<Rightarrow> bool" where
  "bracket (BEGIN_GEOMETRY f s) = True"
| "bracket (END_GEOMETRY f) = True"
| "bracket ins = False"

text \<open>
  The blocks laid out from position \<open>pos\<close> on, each \<open>BEGIN_GEOMETRY\<close> pointing at the
  position of its own \<open>END_GEOMETRY\<close>.
\<close>

fun relocate :: "nat \<Rightarrow> block list \<Rightarrow> instruction list" where
  "relocate pos [] = []"
| "relocate pos ((f, s, body, f') # bs) =
     BEGIN_GEOMETRY f (pos + length body + 1) # body @ [END_GEOMETRY f']
       @ relocate (pos + length body + 2) bs"

text \<open>The reversed image of a block, as it lies in the array after step 1.\<close>

fun reversed_block :: "block \<Rightarrow> instruction list" where
  "reversed_block (f, s, body, f') = END_GEOMETRY f' # rev body @ [BEGIN_GEOMETRY f s]"

text \<open>Every block's inner instructions are free of geometry brackets.\<close>

definition plain_bodies :: "block list \<Rightarrow> bool" where
  "plain_bodies bs = list_all (\<lambda>b. list_all (\<lambda>ins. \<not> bracket ins) (fst (snd (snd b)))) bs"

text \<open>The position at which block \<open>j\<close> of a list of blocks starts.\<close>

definition block_start :: "block list \<Rightarrow> nat \<Rightarrow> nat" where
  "block_start bs j = sum_list (map (\<lambda>b. length (fst (snd (snd b))) + 2) (take j bs))"

text \<open>A feature for examples, with a geometry of extent (0, 0, 1, 1).\<close>

definition feat :: "nat \<Rightarrow> feature" where
  "feat n = \<lparr>feature_uid = n, feature_extent = Some (0, 0, 1, 1)\<rparr>"

section \<open>Replay of an instruction stream (ol/render/canvas/Executor)\<close>

text \<open>
  The drawing surface and the feature callback are external collaborators: a replay is
  observed through the sequence of calls it makes. Path construction is recorded per
  instruction (\<open>MOVE_TO_LINE_TO\<close> with its coordinate range), and the replay of a
  \<open>CUSTOM\<close>, \<open>DRAW_IMAGE\<close> or \<open>DRAW_CHARS\<close> instruction as one call.
\<close>

datatype surface_call =
    Ctx_beginPath
  | Ctx_moveTo_lineTo nat nat
  | Ctx_arc nat
  | Ctx_closePath
  | Ctx_fill
  | Ctx_stroke
  | Ctx_translate
  | Ctx_rotate
  | Ctx_setTransform
  | Ctx_fillStyle string
  | Ctx_strokeStyle stroke_payload
  | Renderer_call nat nat
  | ReplayImage nat nat
  | ReplayChars nat nat
  | FeatureCallback feature

text \<open>
  The local variables of \<open>execute_\<close> that change from one instruction to the next:
  the instruction index \<open>i\<close> (here \<open>cursor\<close>), the two counters of deferred calls, the
  executor's \<open>alignFill_\<close> flag, and the calls made so far.
\<close>

record exec_state =
  cursor :: nat
  pendingFill :: nat
  pendingStroke :: nat
  alignFill :: bool
  trace :: "surface_call list"

text \<open>
  What stays fixed during one call of \<open>execute_\<close>. \<open>skippedFeaturesHash\<close> is a
  dictionary from feature identifiers to booleans, kept as an association list. The
  feature callback may look at the surface, that is at the calls made so far; a truthy
  result is \<open>Some r\<close>. Modelled from the spec: \<open>intersects\<close> of \<open>ol/extent\<close> is not among
  the sources and is a parameter.
\<close>

record 'r replay_env =
  batchSize :: nat
  skippedFeaturesHash :: "(nat \<times> bool) list"
  featureCallback :: "(feature \<Rightarrow> surface_call list \<Rightarrow> 'r option) option"
  opt_hitExtent :: "extent option"
  intersects :: "extent \<Rightarrow> extent \<Rightarrow> bool"

definition emit :: "surface_call list \<Rightarrow> exec_state \<Rightarrow> exec_state" where
  "emit cs s = s\<lparr>trace := trace s @ cs\<rparr>"

definition advance :: "exec_state \<Rightarrow> exec_state" where
  "advance s = s\<lparr>cursor := cursor s + 1\<rparr>"

text \<open>
  \<open>fill_\<close> (here \<open>fill\<close>): one call of the surface's fill primitive, wrapped in the
  alignment calls when \<open>alignFill_\<close> is set.
\<close>

definition fill :: "exec_state \<Rightarrow> exec_state" where
  "fill s =
     (if alignFill s then emit [Ctx_translate, Ctx_rotate, Ctx_fill, Ctx_setTransform] s
      else emit [Ctx_fill] s)"

definition is_skipped :: "'r replay_env \<Rightarrow> feature \<Rightarrow> bool" where
  "is_skipped env f =
     (skippedFeaturesHash env \<noteq> [] \<and> map_of (skippedFeaturesHash env) (feature_uid f) = Some True)"

datatype 'r step_result = Return 'r exec_state | Continue exec_state

text \<open>One iteration of the loop of \<open>execute_\<close>, on the instruction under the cursor.\<close>

fun step :: "'r replay_env \<Rightarrow> instruction \<Rightarrow> exec_state \<Rightarrow> 'r step_result" where
  "step env (BEGIN_GEOMETRY f skip) s =
     (if is_skipped env f \<or> feature_extent f = None then Continue (s\<lparr>cursor := skip\<rparr>)
      else
        (case (opt_hitExtent env, feature_extent f) of
           (Some hit, Some ext) \<Rightarrow>
             if \<not> intersects env hit ext then Continue (s\<lparr>cursor := skip + 1\<rparr>)
             else Continue (advance s)
         | _ \<Rightarrow> Continue (advance s)))"
| "step env BEGIN_PATH s =
     (let s1 = (if pendingFill s > batchSize env then (fill s)\<lparr>pendingFill := 0\<rparr> else s);
          s2 = (if pendingStroke s1 > batchSize env
                then (emit [Ctx_stroke] s1)\<lparr>pendingStroke := 0\<rparr> else s1);
          s3 = (if pendingFill s2 = 0 \<and> pendingStroke s2 = 0 then emit [Ctx_beginPath] s2 else s2)
      in Continue (advance s3))"
| "step env (CIRCLE d) s = Continue (advance (emit [Ctx_arc d] s))"
| "step env CLOSE_PATH s = Continue (advance (emit [Ctx_closePath] s))"
| "step env (CUSTOM d dd) s = Continue (advance (emit [Renderer_call d dd] s))"
| "step env (DRAW_IMAGE d dd) s = Continue (advance (emit [ReplayImage d dd] s))"
| "step env (DRAW_CHARS d dd) s = Continue (advance (emit [ReplayChars d dd] s))"
| "step env (END_GEOMETRY f) s =
     (case featureCallback env of
        None \<Rightarrow> Continue (advance s)
      | Some callback \<Rightarrow>
          (case callback f (trace s) of
             Some r \<Rightarrow> Return r (emit [FeatureCallback f] s)
           | None \<Rightarrow> Continue (advance (emit [FeatureCallback f] s))))"
| "step env FILL s =
     (if batchSize env \<noteq> 0 then Continue (advance (s\<lparr>pendingFill := pendingFill s + 1\<rparr>))
      else Continue (advance (fill s)))"
| "step env (MOVE_TO_LINE_TO d dd) s = Continue (advance (emit [Ctx_moveTo_lineTo d dd] s))"
| "step env (SET_FILL_STYLE style align) s =
     (let s1 = s\<lparr>alignFill := align\<rparr>;
          s2 = (if pendingFill s1 \<noteq> 0 then
                  (let s' = (fill s1)\<lparr>pendingFill := 0\<rparr>
                   in if pendingStroke s' \<noteq> 0
                      then (emit [Ctx_stroke] s')\<lparr>pendingStroke := 0\<rparr> else s')
                else s1)
      in Continue (advance (emit [Ctx_fillStyle style] s2)))"
| "step env (SET_STROKE_STYLE p) s =
     (let s1 = (if pendingStroke s \<noteq> 0 then (emit [Ctx_stroke] s)\<lparr>pendingStroke := 0\<rparr> else s)
      in Continue (advance (emit [Ctx_strokeStyle p] s1)))"
| "step env STROKE s =
     (if batchSize env \<noteq> 0 then Continue (advance (s\<lparr>pendingStroke := pendingStroke s + 1\<rparr>))
      else Continue (advance (emit [Ctx_stroke] s)))"

text \<open>The flushes after the loop.\<close>

definition finish :: "exec_state \<Rightarrow> exec_state" where
  "finish s =
     (let s1 = (if pendingFill s \<noteq> 0 then fill s else s)
      in if pendingStroke s1 \<noteq> 0 then emit [Ctx_stroke] s1 else s1)"

text \<open>
  The loop of \<open>execute_\<close>. A \<open>BEGIN_GEOMETRY\<close> may send the cursor anywhere, also
  backwards, so the loop need not end: the result is \<open>None\<close> when it does not, and
  otherwise the callback result (if one was truthy) with the final state.
\<close>

partial_function (option) execute_loop ::
  "'r replay_env \<Rightarrow> instruction list \<Rightarrow> exec_state \<Rightarrow> ('r option \<times> exec_state) option" where
  "execute_loop env ins s =
     (if cursor s < length ins then
        (case step env (ins ! cursor s) s of
           Return r s' \<Rightarrow> Some (Some r, s')
         | Continue s' \<Rightarrow> execute_loop env ins s')
      else Some (None, finish s))"

declare execute_loop.simps [code]

text \<open>
  The executor holds the two streams of its bundle. \<open>execute_\<close> is handed an array of
  instructions and compares it with \<open>this.instructions\<close> by identity: the array is the
  executor's own render stream, its own hit-detection stream, or another array.
\<close>

record executor =
  render_instructions :: "instruction list"
  hit_instructions :: "instruction list"
  overlaps :: bool
  exec_alignFill :: bool

datatype stream_ref = Own_instructions | Own_hitDetectionInstructions | Other_instructions "instruction list"

fun stream_of :: "executor \<Rightarrow> stream_ref \<Rightarrow> instruction list" where
  "stream_of ex Own_instructions = render_instructions ex"
| "stream_of ex Own_hitDetectionInstructions = hit_instructions ex"
| "stream_of ex (Other_instructions ins) = ins"

text \<open>
  The state at the start of a replay. \<open>alignFill_\<close> is a field of the executor
  (\<open>exec_alignFill\<close>), \<open>undefined\<close> on a new one and otherwise as the replay before left
  it; the value in the final state is the one the executor keeps. \<open>execute_\<close> is
  \<open>execute_priv\<close> here, beside the public \<open>execute\<close>. The transformed pixel
  coordinates it caches only feed the drawing calls and are left out.
\<close>

definition initial_exec_state :: "bool \<Rightarrow> exec_state" where
  "initial_exec_state a =
     \<lparr>cursor = 0, pendingFill = 0, pendingStroke = 0, alignFill = a, trace = []\<rparr>"

definition batchSize_of :: "executor \<Rightarrow> stream_ref \<Rightarrow> nat" where
  "batchSize_of ex ref = (if ref \<noteq> Own_instructions \<or> overlaps ex then 0 else 200)"

definition execute_priv ::
  "(extent \<Rightarrow> extent \<Rightarrow> bool) \<Rightarrow> executor \<Rightarrow> (nat \<times> bool) list \<Rightarrow> stream_ref
     \<Rightarrow> (feature \<Rightarrow> surface_call list \<Rightarrow> 'r option) option \<Rightarrow> extent option
     \<Rightarrow> ('r option \<times> exec_state) option" where
  "execute_priv isects ex hash ref callback hitExtent =
     execute_loop
       \<lparr>batchSize = batchSize_of ex ref, skippedFeaturesHash = hash,
        featureCallback = callback, opt_hitExtent = hitExtent, intersects = isects\<rparr>
       (stream_of ex ref) (initial_exec_state (exec_alignFill ex))"

definition execute ::
  "(extent \<Rightarrow> extent \<Rightarrow> bool) \<Rightarrow> executor \<Rightarrow> (nat \<times> bool) list
     \<Rightarrow> (unit option \<times> exec_state) option" where
  "execute isects ex hash = execute_priv isects ex hash Own_instructions None None"

definition executeHitDetection ::
  "(extent \<Rightarrow> extent \<Rightarrow> bool) \<Rightarrow> executor \<Rightarrow> (nat \<times> bool) list
     \<Rightarrow> (feature \<Rightarrow> surface_call list \<Rightarrow> 'r option) option \<Rightarrow> extent option
     \<Rightarrow> ('r option \<times> exec_state) option" where
  "executeHitDetection isects ex hash opt_featureCallback hitExtent =
     execute_priv isects ex hash Own_hitDetectionInstructions opt_featureCallback hitExtent"

text \<open>The number of calls of the surface's fill primitive in a sequence of calls.\<close>

definition fill_calls :: "surface_call list \<Rightarrow> nat" where
  "fill_calls cs = length (filter (\<lambda>c. c = Ctx_fill) cs)"

text \<open>
  Instructions that, in a replay without feature callback and without hit extent, move
  the cursor to the next instruction and leave the fills alone: they build the current
  path, stroke it or set the stroke style, bracket a feature that has a geometry and is
  not skipped. They neither call the fill primitive nor change the number of deferred
  fills. \<open>hash\<close> is the dictionary of skipped features.
\<close>

fun inert :: "(nat \<times> bool) list \<Rightarrow> instruction \<Rightarrow> bool" where
  "inert hash (BEGIN_GEOMETRY f skip) =
     (\<not> (hash \<noteq> [] \<and> map_of hash (feature_uid f) = Some True) \<and> feature_extent f \<noteq> None)"
| "inert hash (END_GEOMETRY f) = True"
| "inert hash (MOVE_TO_LINE_TO d dd) = True"
| "inert hash CLOSE_PATH = True"
| "inert hash (CIRCLE d) = True"
| "inert hash STROKE = True"
| "inert hash (SET_STROKE_STYLE p) = True"
| "inert hash ins = False"

text \<open>
  One filled shape in a render stream: instructions of the kinds above (the brackets,
  the stroke of the shape before), \<open>BEGIN_PATH\<close>, the instructions of the path, \<open>FILL\<close>.
\<close>

fun fill_block :: "instruction list \<times> instruction list \<Rightarrow> instruction list" where
  "fill_block (pre, path) = pre @ BEGIN_PATH # path @ [FILL]"

definition inert_blocks :: "(nat \<times> bool) list \<Rightarrow> (instruction list \<times> instruction list) list \<Rightarrow> bool" where
  "inert_blocks hash blocks =
     list_all (\<lambda>b. list_all (inert hash) (fst b) \<and> list_all (inert hash) (snd b)) blocks"

text \<open>
  The number of fill calls still to come when \<open>p\<close> fills are pending and \<open>n\<close> fill blocks
  remain, for a batch size \<open>B\<close>.
\<close>

fun flushes :: "nat \<Rightarrow> nat \<Rightarrow> nat \<Rightarrow> nat" where
  "flushes B p 0 = (if p \<noteq> 0 then 1 else 0)"
| "flushes B p (Suc n) =
     (let p1 = (if p > B then 0 else p)
      in (if p > B then 1 else 0)
         + (if B \<noteq> 0 then flushes B (p1 + 1) n else 1 + flushes B p1 n))"

text \<open>An intersection test for examples: two boxes, each as (minX, minY, maxX, maxY).\<close>

fun boxes_intersect :: "extent \<Rightarrow> extent \<Rightarrow> bool" where
  "boxes_intersect (a0, a1, a2, a3) (b0, b1, b2, b3) =
     (a0 \<le> b2 \<and> a2 \<ge> b0 \<and> a1 \<le> b3 \<and> a3 \<ge> b1)"

text \<open>Two states that agree on everything the count of fill calls depends on.\<close>

definition same_pending :: "exec_state \<Rightarrow> exec_state \<Rightarrow> bool" where
  "same_pending s s1 \<longleftrightarrow>
     pendingFill s1 = pendingFill s \<and> fill_calls (trace s1) = fill_calls (trace s)"

text \<open>
  A hit-detection replay for examples: one feature block, a hit extent away from the
  feature, a callback that is truthy for every feature.
\<close>

definition hit_env :: "(nat \<times> bool) list \<Rightarrow> feature replay_env" where
  "hit_env hash =
     \<lparr>batchSize = 0, skippedFeaturesHash = hash,
      featureCallback = Some (\<lambda>f calls. Some f),
      opt_hitExtent = Some (5, 5, 6, 6), intersects = boxes_intersect\<rparr>"

definition hit_stream :: "instruction list" where
  "hit_stream = [BEGIN_GEOMETRY (feat 1) 3, BEGIN_PATH, MOVE_TO_LINE_TO 0 4, END_GEOMETRY (feat 1)]"

section \<open>Hit detection over all executors (ol/render/canvas/ExecutorGroup)\<close>













section \<open>Properties of the GPU resource helper\<close>

lemma deleteBuffer_never_bound:
  "bufferCache h (buf_uid buf) = None \<Longrightarrow>
   deleteBuffer h buf = (if contextLost (gl h) then Inr h else Inl TypeError)"
  by (simp add: deleteBuffer_def Let_def fun_upd_idem)

text \<open>
  Claim C4 (as the code behaves). On a fresh helper with an active context, deleting a
  buffer that was never bound throws a TypeError instead of being a no-op: the cache
  entry is \<open>undefined\<close> and its \<open>buffer\<close> property is read before any check.
\<close>

theorem deleteBuffer_never_bound_active_throws:
  "deleteBuffer (new_helper False) \<lparr>buf_uid = 1, buf_array = [], buf_usage = 0\<rparr> = Inl TypeError"
  by (simp add: deleteBuffer_def new_helper_def)

text \<open>
  Claim C5. After \<open>handleWebGLContextLost\<close> the buffer, shader and program caches are
  empty and the current program is \<open>null\<close>. A following \<open>getProgram\<close> takes the creation
  path whatever was cached before: it returns what \<open>createProgram\<close> returns, compiles the
  shaders again, attaches both to the new program, links it and caches it. The handle
  it returns is none of the handles allocated before the loss.
\<close>

theorem context_lost_then_getProgram_recompiles:
  fixes h :: helper and f v :: shader_object
  defines "h0 \<equiv> handleWebGLContextLost h"
  defines "n \<equiv> nextHandle (gl h)"
  defines "lost \<equiv> contextLost (gl h)"
  defines "p \<equiv> (if lost then None else Some n)"
  defines "fs \<equiv> (if lost then None else Some (n + 1))"
  defines "vs \<equiv> (if lost then None else if shader_uid v = shader_uid f then Some (n + 1) else Some (n + 2))"
  shows "bufferCache h0 = Map.empty \<and> shaderCache h0 = Map.empty \<and>
         programCache h0 = Map.empty \<and> currentProgram h0 = None \<and>
         fst (getProgram h0 f v) = p \<and>
         calls_since h (snd (getProgram h0 f v)) =
           [GL_createProgram,
            GL_createShader (shader_type f), GL_shaderSource fs (shader_source f),
            GL_compileShader fs, GL_attachShader p fs] @
           (if shader_uid v = shader_uid f then []
            else [GL_createShader (shader_type v), GL_shaderSource vs (shader_source v),
                  GL_compileShader vs]) @
           [GL_attachShader p vs, GL_linkProgram p] \<and>
         programCache (snd (getProgram h0 f v)) (shader_uid f, shader_uid v) = Some p \<and>
         (\<forall>k. programCache h (shader_uid f, shader_uid v) = Some (Some k) \<and> k < n
              \<longrightarrow> fst (getProgram h0 f v) \<noteq> Some k)"
  unfolding h0_def n_def lost_def p_def fs_def vs_def
  by (auto simp add: handleWebGLContextLost_def getProgram_def getShader_def Let_def
       gl_create_def gl_do_def calls_since_def split: prod.splits)

theorem context_lost_then_getProgram_recompiles_witness:
  "programCache ((new_helper True)\<lparr>gl := \<lparr>contextLost = False, nextHandle = 3, calls = []\<rparr>,
                                  programCache := [(1, 2) \<mapsto> Some 0]\<rparr>) (1, 2) = Some (Some 0) \<and>
   (0::nat) < 3 \<and>
   fst (getProgram
          (handleWebGLContextLost
             ((new_helper True)\<lparr>gl := \<lparr>contextLost = False, nextHandle = 3, calls = []\<rparr>,
                                programCache := [(1, 2) \<mapsto> Some 0]\<rparr>))
          \<lparr>shader_uid = 1, shader_type = 35632, shader_source = ''f''\<rparr>
          \<lparr>shader_uid = 2, shader_type = 35633, shader_source = ''v''\<rparr>) = Some 3 \<and>
   fst (getProgram
          (handleWebGLContextLost
             ((new_helper True)\<lparr>gl := \<lparr>contextLost = False, nextHandle = 3, calls = []\<rparr>,
                                programCache := [(1, 2) \<mapsto> Some 0]\<rparr>))
          \<lparr>shader_uid = 1, shader_type = 35632, shader_source = ''f''\<rparr>
          \<lparr>shader_uid = 2, shader_type = 35633, shader_source = ''v''\<rparr>) \<noteq> Some 0"
  using context_lost_then_getProgram_recompiles
    [of "(new_helper True)\<lparr>gl := \<lparr>contextLost = False, nextHandle = 3, calls = []\<rparr>,
                                  programCache := [(1, 2) \<mapsto> Some 0]\<rparr>"
        "\<lparr>shader_uid = 1, shader_type = 35632, shader_source = ''f''\<rparr>"
        "\<lparr>shader_uid = 2, shader_type = 35633, shader_source = ''v''\<rparr>"]
  by (simp add: new_helper_def)

section \<open>Properties of the builder group\<close>

lemma int_toString_0: "int_toString 0 = ''0''"
  by (simp add: int_toString_def nat_toString.simps digit_char_def)

lemma getBuilder_again:
  "getBuilder str g z k = (r, g') \<Longrightarrow> getBuilder str g' z k = (r, g')"
  by (auto simp add: getBuilder_def Let_def split: option.splits prod.splits)

lemma lookup_getBuilder:
  "lookup_builder (snd (getBuilder str g z k)) key kind =
     (if key = zIndexKey_of str z \<and> kind = k
      then Some (case lookup_builder g key kind of None \<Rightarrow> length (constructed g) | Some r \<Rightarrow> r)
      else lookup_builder g key kind)"
  by (auto simp add: getBuilder_def lookup_builder_def Let_def split: option.splits prod.splits)

lemma constructed_getBuilder:
  "constructed (snd (getBuilder str g z k)) =
     (case lookup_builder g (zIndexKey_of str z) k of
        None \<Rightarrow> constructed g @ [BATCH_CONSTRUCTORS k] | Some r \<Rightarrow> constructed g)"
  by (auto simp add: getBuilder_def lookup_builder_def Let_def split: option.splits prod.splits)

lemma fst_getBuilder:
  "fst (getBuilder str g z k) =
     (case lookup_builder g (zIndexKey_of str z) k of None \<Rightarrow> length (constructed g) | Some r \<Rightarrow> r)"
  by (auto simp add: getBuilder_def lookup_builder_def Let_def split: option.splits prod.splits)

lemma getBuilder_found:
  "lookup_builder g (zIndexKey_of str z) k = Some r \<Longrightarrow> getBuilder str g z k = (r, g)"
  by (auto simp add: getBuilder_def lookup_builder_def Let_def split: option.splits prod.splits)

lemma group_inv_getBuilder:
  assumes "group_inv g" shows "group_inv (snd (getBuilder str g z k))"
proof (cases "lookup_builder g (zIndexKey_of str z) k")
  case None
  show ?thesis
    unfolding group_inv_def
  proof (intro conjI allI impI)
    fix key kind r
    assume "lookup_builder (snd (getBuilder str g z k)) key kind = Some r"
    then show "r < length (constructed (snd (getBuilder str g z k)))"
      using assms None
      by (auto simp add: lookup_getBuilder constructed_getBuilder group_inv_def less_Suc_eq
               split: if_splits)
  next
    fix key kind key' kind' r
    assume a: "lookup_builder (snd (getBuilder str g z k)) key kind = Some r \<and>
            lookup_builder (snd (getBuilder str g z k)) key' kind' = Some r"
    have fresh: "\<And>key kind. lookup_builder g key kind \<noteq> Some (length (constructed g))"
      using assms by (auto simp add: group_inv_def)
    have inj: "\<And>key kind key' kind' r. lookup_builder g key kind = Some r \<Longrightarrow>
        lookup_builder g key' kind' = Some r \<Longrightarrow> key = key' \<and> kind = kind'"
      using assms unfolding group_inv_def by blast
    from a show "key = key'" using None fresh inj
      by (auto simp add: lookup_getBuilder split: if_splits)
    from a show "kind = kind'" using None fresh inj
      by (auto simp add: lookup_getBuilder split: if_splits)
  next
    fix r assume "r < length (constructed (snd (getBuilder str g z k)))"
    then have "r < length (constructed g) \<or> r = length (constructed g)"
      using None by (auto simp add: constructed_getBuilder)
    then show "\<exists>key kind. lookup_builder (snd (getBuilder str g z k)) key kind = Some r"
    proof
      assume "r < length (constructed g)"
      then obtain key kind where "lookup_builder g key kind = Some r"
        using assms by (auto simp add: group_inv_def)
      then show ?thesis using None
        by (intro exI[of _ key] exI[of _ kind]) (auto simp add: lookup_getBuilder)
    next
      assume "r = length (constructed g)"
      then show ?thesis using None
        by (intro exI[of _ "zIndexKey_of str z"] exI[of _ k]) (simp add: lookup_getBuilder)
    qed
  next
    fix key kind r
    assume a: "lookup_builder (snd (getBuilder str g z k)) key kind = Some r"
    have old: "\<And>key kind r. lookup_builder g key kind = Some r \<Longrightarrow>
        r < length (constructed g) \<and> constructed g ! r = BATCH_CONSTRUCTORS kind"
      using assms unfolding group_inv_def by blast
    show "constructed (snd (getBuilder str g z k)) ! r = BATCH_CONSTRUCTORS kind"
    proof (cases "key = zIndexKey_of str z \<and> kind = k")
      case True
      then have "r = length (constructed g)" using a None by (simp add: lookup_getBuilder)
      then show ?thesis using None True by (simp add: constructed_getBuilder)
    next
      case False
      then have "lookup_builder g key kind = Some r" using a by (auto simp add: lookup_getBuilder)
      from old[OF this] show ?thesis using None by (simp add: constructed_getBuilder nth_append)
    qed
  qed
next
  case (Some r0)
  have same: "\<And>key kind. lookup_builder (snd (getBuilder str g z k)) key kind = lookup_builder g key kind"
    using Some by (auto simp add: lookup_getBuilder)
  have c: "constructed (snd (getBuilder str g z k)) = constructed g"
    using Some by (simp add: constructed_getBuilder)
  show ?thesis using assms unfolding group_inv_def same c .
qed

lemma group_inv_new: "group_inv new_builder_group"
  by (simp add: group_inv_def new_builder_group_def lookup_builder_def)

lemma group_reachable_inv: "group_reachable str g \<Longrightarrow> group_inv g"
  by (induction rule: group_reachable.induct) (simp_all add: group_inv_new group_inv_getBuilder)

text \<open>
  Claim C8. \<open>getBuilder\<close> is idempotent, for every z-index, a number or \<open>undefined\<close>, and
  every kind. The Builder \<open>r\<close> that a call returns is the one the group holds under the
  key of the z-index and the kind after the call: the one it held there before, the
  group being left as it was, or else a Builder constructed by this call with the
  constructor for the kind. A second call with the same z-index and kind returns the
  same Builder instance and changes nothing. An undefined z-index has the key "0", which
  is also the key of the z-index 0 (the number 0 being written "0"), so the two give the
  same Builder, whichever is asked first. In every group reached from a new one by calls
  of \<open>getBuilder\<close>, the Builder returned is a constructed Builder of the class for the
  kind, each (key, kind) pair holds at most one Builder, no Builder is held under two
  pairs, and every Builder ever constructed is held under some pair: there is exactly
  one Builder per pair in use.
\<close>

theorem getBuilder_idempotent:
  fixes toString :: "'n :: zero \<Rightarrow> string"
  shows
  "(getBuilder toString g zIndex kind = (r, g') \<longrightarrow>
      lookup_builder g' (zIndexKey_of toString zIndex) kind = Some r \<and>
      getBuilder toString g' zIndex kind = (r, g') \<and>
      (case lookup_builder g (zIndexKey_of toString zIndex) kind of
         Some r0 \<Rightarrow> r = r0 \<and> g' = g
       | None \<Rightarrow> r = length (constructed g) \<and>
                  constructed g' = constructed g @ [BATCH_CONSTRUCTORS kind]) \<and>
      (\<forall>key k. key \<noteq> zIndexKey_of toString zIndex \<or> k \<noteq> kind
          \<longrightarrow> lookup_builder g' key k = lookup_builder g key k)) \<and>
   zIndexKey_of toString None = ''0'' \<and>
   (toString 0 = ''0'' \<longrightarrow>
      zIndexKey_of toString (Some 0) = ''0'' \<and>
      getBuilder toString g (Some 0) kind = getBuilder toString g None kind \<and>
      getBuilder toString (snd (getBuilder toString g None kind)) (Some 0) kind
        = getBuilder toString g None kind \<and>
      getBuilder toString (snd (getBuilder toString g (Some 0) kind)) None kind
        = getBuilder toString g (Some 0) kind) \<and>
   (group_reachable toString g \<longrightarrow>
      (getBuilder toString g zIndex kind = (r, g') \<longrightarrow>
         r < length (constructed g') \<and> constructed g' ! r = BATCH_CONSTRUCTORS kind) \<and>
      (\<forall>key k key' k' b. lookup_builder g key k = Some b \<and> lookup_builder g key' k' = Some b
          \<longrightarrow> key = key' \<and> k = k') \<and>
      (\<forall>b < length (constructed g). \<exists>key k. lookup_builder g key k = Some b) \<and>
      (\<forall>key k b. lookup_builder g key k = Some b
          \<longrightarrow> b < length (constructed g) \<and> constructed g ! b = BATCH_CONSTRUCTORS k))"
proof (intro conjI impI)
  assume a: "getBuilder toString g zIndex kind = (r, g')"
  then have g': "g' = snd (getBuilder toString g zIndex kind)"
    and r: "r = fst (getBuilder toString g zIndex kind)" by simp_all
  show "lookup_builder g' (zIndexKey_of toString zIndex) kind = Some r"
    unfolding g' r by (simp add: lookup_getBuilder fst_getBuilder)
  show "getBuilder toString g' zIndex kind = (r, g')" using a by (rule getBuilder_again)
  show "case lookup_builder g (zIndexKey_of toString zIndex) kind of
         Some r0 \<Rightarrow> r = r0 \<and> g' = g
       | None \<Rightarrow> r = length (constructed g) \<and>
                  constructed g' = constructed g @ [BATCH_CONSTRUCTORS kind]"
  proof (cases "lookup_builder g (zIndexKey_of toString zIndex) kind")
    case None
    then show ?thesis unfolding g' r by (simp add: fst_getBuilder constructed_getBuilder)
  next
    case (Some r0)
    from getBuilder_found[OF this] a show ?thesis using Some by simp
  qed
  show "\<forall>key k. key \<noteq> zIndexKey_of toString zIndex \<or> k \<noteq> kind
          \<longrightarrow> lookup_builder g' key k = lookup_builder g key k"
    unfolding g' by (auto simp add: lookup_getBuilder)
next
  show "zIndexKey_of toString None = ''0''" by (simp add: zIndexKey_of_def)
next
  assume z: "toString 0 = ''0''"
  show "zIndexKey_of toString (Some 0) = ''0''" using z by (simp add: zIndexKey_of_def)
  have same_key: "\<And>g k. getBuilder toString g (Some 0) k = getBuilder toString g None k"
    using z by (simp add: getBuilder_def zIndexKey_of_def)
  have again: "\<And>g z k. getBuilder toString (snd (getBuilder toString g z k)) z k
                  = getBuilder toString g z k"
    using getBuilder_again by (metis prod.collapse)
  show "getBuilder toString g (Some 0) kind = getBuilder toString g None kind"
    by (rule same_key)
  show "getBuilder toString (snd (getBuilder toString g None kind)) (Some 0) kind
          = getBuilder toString g None kind"
    using again[of g None kind] by (simp add: same_key)
  show "getBuilder toString (snd (getBuilder toString g (Some 0) kind)) None kind
          = getBuilder toString g (Some 0) kind"
    using again[of g None kind] by (simp add: same_key)
next
  assume reach: "group_reachable toString g"
  then have inv: "group_inv g" by (rule group_reachable_inv)
  show "\<forall>key k key' k' b. lookup_builder g key k = Some b \<and> lookup_builder g key' k' = Some b
          \<longrightarrow> key = key' \<and> k = k'"
    using inv unfolding group_inv_def by blast
  show "\<forall>b < length (constructed g). \<exists>key k. lookup_builder g key k = Some b"
    using inv unfolding group_inv_def by blast
  show "\<forall>key k b. lookup_builder g key k = Some b
          \<longrightarrow> b < length (constructed g) \<and> constructed g ! b = BATCH_CONSTRUCTORS k"
    using inv unfolding group_inv_def by blast
  assume a: "getBuilder toString g zIndex kind = (r, g')"
  have inv': "group_inv (snd (getBuilder toString g zIndex kind))"
    using inv by (rule group_inv_getBuilder)
  have l: "lookup_builder (snd (getBuilder toString g zIndex kind)) (zIndexKey_of toString zIndex) kind
             = Some (fst (getBuilder toString g zIndex kind))"
    by (simp add: lookup_getBuilder fst_getBuilder)
  from inv' l have "fst (getBuilder toString g zIndex kind)
        < length (constructed (snd (getBuilder toString g zIndex kind))) \<and>
      constructed (snd (getBuilder toString g zIndex kind)) ! fst (getBuilder toString g zIndex kind)
        = BATCH_CONSTRUCTORS kind"
    unfolding group_inv_def by blast
  then show "r < length (constructed g')" "constructed g' ! r = BATCH_CONSTRUCTORS kind"
    using a by simp_all
qed

theorem getBuilder_idempotent_witness:
  "getBuilder int_toString new_builder_group (Some 3) Polygon
     = (0, snd (getBuilder int_toString new_builder_group (Some 3) Polygon)) \<and>
   lookup_builder (snd (getBuilder int_toString new_builder_group (Some 3) Polygon)) ''3'' Polygon
     = Some 0 \<and>
   constructed (snd (getBuilder int_toString new_builder_group (Some 3) Polygon))
     = [CanvasPolygonBuilder] \<and>
   getBuilder int_toString (snd (getBuilder int_toString new_builder_group (Some 3) Polygon))
      (Some 3) Polygon
     = (0, snd (getBuilder int_toString new_builder_group (Some 3) Polygon)) \<and>
   int_toString 0 = ''0'' \<and>
   getBuilder int_toString (snd (getBuilder int_toString new_builder_group None Polygon))
      (Some 0) Polygon
     = getBuilder int_toString new_builder_group None Polygon \<and>
   group_reachable int_toString new_builder_group \<and>
   0 < length (constructed (snd (getBuilder int_toString new_builder_group (Some 3) Polygon)))"
proof -
  have h: "getBuilder int_toString new_builder_group (Some 3) Polygon
     = (0, snd (getBuilder int_toString new_builder_group (Some 3) Polygon))"
    by (simp add: prod_eq_iff fst_getBuilder lookup_builder_def new_builder_group_def)
  have k: "zIndexKey_of int_toString (Some 3) = ''3''"
    by (simp add: zIndexKey_of_def int_toString_def nat_toString.simps digit_char_def)
  have e: "lookup_builder new_builder_group ''3'' Polygon = None"
    by (simp add: lookup_builder_def new_builder_group_def)
  have c: "constructed new_builder_group = []" by (simp add: new_builder_group_def)
  show ?thesis
    using getBuilder_idempotent
      [of int_toString new_builder_group "Some 3" Polygon 0
          "snd (getBuilder int_toString new_builder_group (Some 3) Polygon)"]
      getBuilder_idempotent
      [of int_toString new_builder_group None Polygon 0
          "snd (getBuilder int_toString new_builder_group (Some 3) Polygon)"]
      h k e c int_toString_0 reach_new[of int_toString]
    by simp
qed

section \<open>Properties of the circle mask\<close>

lemma keeps_refl: "keeps arr arr"
  by (simp add: keeps_def)

lemma keeps_trans: "keeps a b \<Longrightarrow> keeps b c \<Longrightarrow> keeps a c"
  by (simp add: keeps_def)

lemma set_cell_sq:
  assumes "sq n arr" "0 \<le> i" "i < int n" "0 \<le> y" "y < int n"
  shows "\<exists>arr'. set_cell arr i y = Inr arr' \<and> sq n arr' \<and> keeps arr arr' \<and>
           arr' ! nat i ! nat y = Some True"
proof -
  let ?row = "arr ! nat i"
  let ?arr' = "arr[nat i := ?row[nat y := Some True]]"
  have len: "length arr = n" and i: "nat i < length arr" using assms by (auto simp add: sq_def)
  have rowlen: "length ?row = n" using assms i by (auto simp add: sq_def)
  have eq: "set_cell arr i y = Inr ?arr'"
    using assms len rowlen by (simp add: set_cell_def Let_def)
  have "sq n ?arr'"
    unfolding sq_def
  proof (intro conjI ballI)
    show "length ?arr' = n" using len by simp
  next
    fix row assume "row \<in> set ?arr'"
    then have "row \<in> set arr \<or> row = ?row[nat y := Some True]"
      using set_update_subset_insert[of arr "nat i"] by auto
    moreover have "?row \<in> set arr" using i by simp
    ultimately show "length row = n" using assms(1) by (auto simp add: sq_def)
  next
    fix row assume "row \<in> set ?arr'"
    then have "row \<in> set arr \<or> row = ?row[nat y := Some True]"
      using set_update_subset_insert[of arr "nat i"] by auto
    moreover have r: "?row \<in> set arr" using i by simp
    moreover have "Some False \<notin> set (?row[nat y := Some True])"
      using set_update_subset_insert[of ?row "nat y" "Some True"] r assms(1)
      by (auto simp add: sq_def)
    ultimately show "Some False \<notin> set row" using assms(1) by (auto simp add: sq_def)
  qed
  moreover have "keeps arr ?arr'"
    unfolding keeps_def
  proof (intro allI impI)
    fix a b assume h: "arr ! a ! b = Some True"
    show "?arr' ! a ! b = Some True"
    proof (cases "a = nat i")
      case True
      moreover have "nat y < length ?row" using rowlen assms by simp
      ultimately show ?thesis using h i
        by (cases "b = nat y") simp_all
    next
      case False
      then show ?thesis using h by simp
    qed
  qed
  moreover have "?arr' ! nat i ! nat y = Some True"
  proof -
    have "nat y < length ?row" using rowlen assms by simp
    then show ?thesis using i by simp
  qed
  ultimately show ?thesis using eq by blast
qed

lemma fill_from_sq:
  "sq n arr \<Longrightarrow> 0 \<le> i \<Longrightarrow> bound \<le> int n \<Longrightarrow> 0 \<le> y \<Longrightarrow> y < int n \<Longrightarrow>
   \<exists>arr'. fill_from i bound y arr = Inr arr' \<and> sq n arr' \<and> keeps arr arr' \<and>
          (i < bound \<longrightarrow> arr' ! nat i ! nat y = Some True)"
proof (induction i bound y arr rule: fill_from.induct)
  case (1 i bound y array)
  show ?case
  proof (cases "i < bound")
    case False
    then show ?thesis using "1.prems" by (simp add: fill_from.simps keeps_refl)
  next
    case True
    then have "i < int n" using "1.prems" by simp
    from set_cell_sq[OF "1.prems"(1,2) this "1.prems"(4,5)]
    obtain a1 where a1: "set_cell array i y = Inr a1" "sq n a1" "keeps array a1"
        "a1 ! nat i ! nat y = Some True" by blast
    from "1.IH"[OF True a1(1) a1(2)] "1.prems"
    obtain a2 where a2: "fill_from (i + 1) bound y a1 = Inr a2" "sq n a2" "keeps a1 a2"
      by auto
    have "fill_from i bound y array = Inr a2"
      using True a1(1) a2(1) by (subst fill_from.simps) simp
    moreover have "keeps array a2" using a1(3) a2(3) by (rule keeps_trans)
    moreover have "a2 ! nat i ! nat y = Some True" using a1(4) a2(3) by (simp add: keeps_def)
    ultimately show ?thesis using a2(2) by blast
  qed
qed

lemma fillRow_sq:
  assumes "sq (2 * r + 1) arr" "0 \<le> x" "x \<le> 2 * int r" "0 \<le> y" "y \<le> 2 * int r"
  shows "\<exists>arr'. fillCircleArrayRowToMiddle arr x y = Inr arr' \<and> sq (2 * r + 1) arr' \<and>
           keeps arr arr' \<and> (int r < x \<longrightarrow> arr' ! r ! nat y = Some True)"
proof -
  have rad: "int (length arr div 2) = int r" using assms(1) by (simp add: sq_def)
  show ?thesis
  proof (cases "x \<ge> int r")
    case True
    from fill_from_sq[OF assms(1), of "int r" x y] assms
    obtain a where "fill_from (int r) x y arr = Inr a" "sq (2 * r + 1) a" "keeps arr a"
       "int r < x \<longrightarrow> a ! nat (int r) ! nat y = Some True" by auto
    then show ?thesis using True rad by (auto simp add: fillCircleArrayRowToMiddle_def)
  next
    case False
    from fill_from_sq[OF assms(1), of "x + 1" "int r" y] assms
    obtain a where "fill_from (x + 1) (int r) y arr = Inr a" "sq (2 * r + 1) a" "keeps arr a"
      by auto
    then show ?thesis using False rad by (auto simp add: fillCircleArrayRowToMiddle_def)
  qed
qed

lemma fill_all_sq:
  "sq (2 * r + 1) arr \<Longrightarrow> \<forall>(x, y) \<in> set ps. 0 \<le> x \<and> x \<le> 2 * int r \<and> 0 \<le> y \<and> y \<le> 2 * int r \<Longrightarrow>
   \<exists>arr'. fill_all ps arr = Inr arr' \<and> sq (2 * r + 1) arr' \<and> keeps arr arr' \<and>
     (\<forall>x y rest. ps = (x, y) # rest \<and> int r < x \<longrightarrow> arr' ! r ! nat y = Some True)"
proof (induction ps arbitrary: arr)
  case Nil
  then show ?case by (simp add: keeps_refl)
next
  case (Cons p ps)
  obtain x y where p: "p = (x, y)" by (cases p)
  from Cons.prems p have b: "0 \<le> x" "x \<le> 2 * int r" "0 \<le> y" "y \<le> 2 * int r" by auto
  from fillRow_sq[OF Cons.prems(1) b]
  obtain a1 where a1: "fillCircleArrayRowToMiddle arr x y = Inr a1" "sq (2 * r + 1) a1"
      "keeps arr a1" "int r < x \<longrightarrow> a1 ! r ! nat y = Some True" by blast
  from Cons.IH[OF a1(2)] Cons.prems(2)
  obtain a2 where a2: "fill_all ps a1 = Inr a2" "sq (2 * r + 1) a2" "keeps a1 a2" by auto
  have "fill_all (p # ps) arr = Inr a2" using p a1(1) a2(1) by simp
  moreover have "keeps arr a2" using a1(3) a2(3) by (rule keeps_trans)
  moreover have "int r < x \<longrightarrow> a2 ! r ! nat y = Some True" using a1(4) a2(3) by (simp add: keeps_def)
  ultimately show ?case using a2(2) p by auto
qed

lemma octants_bounds:
  "0 \<le> y \<Longrightarrow> y \<le> x \<Longrightarrow> x \<le> int r \<Longrightarrow>
   \<forall>(a, b) \<in> set (octants (int r) x y). 0 \<le> a \<and> a \<le> 2 * int r \<and> 0 \<le> b \<and> b \<le> 2 * int r"
  by (simp add: octants_def)

lemma circle_loop_sq:
  "sq (2 * r + 1) arr \<Longrightarrow> radius = int r \<Longrightarrow> 0 \<le> y \<Longrightarrow> x \<le> int r \<Longrightarrow>
   \<exists>arr'. circle_loop radius x y error arr = Inr arr' \<and> sq (2 * r + 1) arr' \<and> keeps arr arr'"
proof (induction radius x y error arr rule: circle_loop.induct)
  case (1 radius x y error arr)
  show ?case
  proof (cases "x \<ge> y")
    case False
    then show ?thesis using "1.prems" by (simp add: circle_loop.simps keeps_refl)
  next
    case True
    from fill_all_sq[OF "1.prems"(1) octants_bounds[OF "1.prems"(3) True "1.prems"(4)]] "1.prems"(2)
    obtain a1 where a1: "fill_all (octants radius x y) arr = Inr a1" "sq (2 * r + 1) a1"
      "keeps arr a1" by auto
    show ?thesis
    proof (cases "2 * (error + (1 + 2 * (y + 1)) - x) + 1 > 0")
      case t: True
      from "1.IH"(1)[OF True a1(1) refl refl t a1(2) "1.prems"(2)] "1.prems"
      obtain a2 where a2: "circle_loop radius (x - 1) (y + 1)
           (error + (1 + 2 * (y + 1)) + (1 - 2 * (x - 1))) a1 = Inr a2"
         "sq (2 * r + 1) a2" "keeps a1 a2" by auto
      have "circle_loop radius x y error arr = Inr a2"
        using True t a1(1) a2(1) by (subst circle_loop.simps) (simp add: Let_def)
      then show ?thesis using a2(2) keeps_trans[OF a1(3) a2(3)] by blast
    next
      case f: False
      from "1.IH"(2)[OF True a1(1) refl refl f a1(2) "1.prems"(2)] "1.prems"
      obtain a2 where a2: "circle_loop radius x (y + 1) (error + (1 + 2 * (y + 1))) a1 = Inr a2"
         "sq (2 * r + 1) a2" "keeps a1 a2" by auto
      have "circle_loop radius x y error arr = Inr a2"
        using True f a1(1) a2(1) by (subst circle_loop.simps) (simp add: Let_def)
      then show ?thesis using a2(2) keeps_trans[OF a1(3) a2(3)] by blast
    qed
  qed
qed

lemma sq_replicate: "sq n (replicate n (replicate n None))"
  by (simp add: sq_def)

lemma circle_computed_good:
  assumes "0 < r"
  shows "\<exists>arr'. circle_loop (int r) (int r) 0 0 (replicate (r * 2 + 1) (replicate (r * 2 + 1) None)) = Inr arr'
            \<and> good_circle r arr'"
proof -
  let ?a0 = "replicate (r * 2 + 1) (replicate (r * 2 + 1) None) :: circle_array"
  have s0: "sq (2 * r + 1) ?a0" using sq_replicate[of "2 * r + 1"] by (simp add: mult.commute)
  have b: "\<forall>(a, b) \<in> set (octants (int r) (int r) 0). 0 \<le> a \<and> a \<le> 2 * int r \<and> 0 \<le> b \<and> b \<le> 2 * int r"
    by (rule octants_bounds) simp_all
  from fill_all_sq[OF s0 b]
  obtain a1 where a1: "fill_all (octants (int r) (int r) 0) ?a0 = Inr a1" "sq (2 * r + 1) a1"
     "\<forall>x y rest. octants (int r) (int r) 0 = (x, y) # rest \<and> int r < x \<longrightarrow> a1 ! r ! nat y = Some True"
    by blast
  have "a1 ! r ! nat (int r + 0) = Some True"
    using a1(3) assms by (simp add: octants_def)
  then have c1: "a1 ! r ! r = Some True" by simp
  have rest: "\<And>x e. x \<le> int r \<Longrightarrow> \<exists>arr'. circle_loop (int r) x 1 e a1 = Inr arr' \<and> sq (2 * r + 1) arr' \<and> keeps a1 arr'"
    using circle_loop_sq[OF a1(2) refl, of 1] by simp
  show ?thesis
  proof (cases "2 * ((0::int) + (1 + 2 * (0 + 1)) - int r) + 1 > 0")
    case True
    from rest[of "int r - 1" "0 + (1 + 2 * (0 + 1)) + (1 - 2 * (int r - 1))"]
    obtain a2 where a2: "circle_loop (int r) (int r - 1) 1 (0 + (1 + 2 * (0 + 1)) + (1 - 2 * (int r - 1))) a1 = Inr a2"
      "sq (2 * r + 1) a2" "keeps a1 a2" by auto
    have "circle_loop (int r) (int r) 0 0 ?a0 = Inr a2"
      using True a1(1) a2(1) by (subst circle_loop.simps) (simp add: Let_def)
    moreover have "a2 ! r ! r = Some True" using c1 a2(3) by (simp add: keeps_def)
    ultimately show ?thesis using a2(2) by (auto simp add: good_circle_def)
  next
    case False
    from rest[of "int r" "0 + (1 + 2 * (0 + 1))"]
    obtain a2 where a2: "circle_loop (int r) (int r) 1 (0 + (1 + 2 * (0 + 1))) a1 = Inr a2"
      "sq (2 * r + 1) a2" "keeps a1 a2" by auto
    have "circle_loop (int r) (int r) 0 0 ?a0 = Inr a2"
      using False a1(1) a2(1) by (subst circle_loop.simps) (simp add: Let_def)
    moreover have "a2 ! r ! r = Some True" using c1 a2(3) by (simp add: keeps_def)
    ultimately show ?thesis using a2(2) by (auto simp add: good_circle_def)
  qed
qed

lemma getCircleArray_inv:
  assumes "cache_inv c"
  shows "\<exists>a c'. getCircleArray r c = Inr (a, c') \<and> cache_inv c' \<and>
            circleArrayCache c' r = Some a"
proof (cases "circleArrayCache c r")
  case (Some a)
  then show ?thesis using assms by (simp add: getCircleArray_def)
next
  case None
  then have "0 < r" using assms by (cases r) (auto simp add: cache_inv_def)
  from circle_computed_good[OF this]
  obtain arr' where arr: "circle_loop (int r) (int r) 0 0
       (replicate (r * 2 + 1) (replicate (r * 2 + 1) None)) = Inr arr'" "good_circle r arr'"
    by blast
  let ?c' = "c\<lparr>arrays := arrays c @ [arr'], circleArrayCache := (circleArrayCache c)(r \<mapsto> length (arrays c))\<rparr>"
  have g: "getCircleArray r c = Inr (length (arrays c), ?c')"
    using None arr(1) by (simp add: getCircleArray_def Let_def)
  have old: "\<And>r a. circleArrayCache c r = Some a \<Longrightarrow> a < length (arrays c) \<and> good_circle r (arrays c ! a)"
    using assms by (simp add: cache_inv_def)
  have "cache_inv ?c'"
    unfolding cache_inv_def
  proof (intro conjI allI impI)
    show "circleArrayCache ?c' 0 \<noteq> None" using assms by (simp add: cache_inv_def)
  next
    fix r' a assume "circleArrayCache ?c' r' = Some a"
    then have "(r' = r \<and> a = length (arrays c)) \<or> (r' \<noteq> r \<and> circleArrayCache c r' = Some a)"
      by (auto split: if_splits)
    then show "a < length (arrays ?c')" using old by (auto simp add: less_Suc_eq)
  next
    fix r' a assume "circleArrayCache ?c' r' = Some a"
    then have "(r' = r \<and> a = length (arrays c)) \<or> (r' \<noteq> r \<and> circleArrayCache c r' = Some a)"
      by (auto split: if_splits)
    then show "good_circle r' (arrays ?c' ! a)" using old arr(2) by (auto simp add: nth_append)
  qed
  then show ?thesis using g by simp
qed

lemma cache_inv_initial: "cache_inv initial_circle_cache"
  by (simp add: cache_inv_def initial_circle_cache_def good_circle_def sq_def)

lemma cache_reachable_inv: "cache_reachable c \<Longrightarrow> cache_inv c"
proof (induction rule: cache_reachable.induct)
  case cache_initial
  show ?case by (rule cache_inv_initial)
next
  case (cache_get c radius a c')
  from getCircleArray_inv[OF cache_get.IH, of radius] cache_get.hyps(2)
  show ?case by auto
qed

text \<open>
  Claim C10. Called with any non-negative integer radius on a cache reached from the
  initial one by calls of \<open>getCircleArray\<close>, the function does not throw and returns an
  array of \<open>2 * radius + 1\<close> rows, each of length \<open>2 * radius + 1\<close>, whose cells are
  \<open>true\<close> or \<open>undefined\<close> only and whose centre cell is \<open>true\<close>; a second call with
  the same radius returns the same array object and leaves the cache as it is.
\<close>

theorem getCircleArray_square_and_memoized:
  assumes "cache_reachable c"
  shows "\<exists>a c'. getCircleArray radius c = Inr (a, c') \<and> a < length (arrays c') \<and>
           length (arrays c' ! a) = 2 * radius + 1 \<and>
           (\<forall>row \<in> set (arrays c' ! a). length row = 2 * radius + 1 \<and>
                (\<forall>cell \<in> set row. cell = None \<or> cell = Some True)) \<and>
           arrays c' ! a ! radius ! radius = Some True \<and>
           getCircleArray radius c' = Inr (a, c')"
proof -
  from getCircleArray_inv[OF cache_reachable_inv[OF assms], of radius]
  obtain a c' where g: "getCircleArray radius c = Inr (a, c')" "cache_inv c'"
     "circleArrayCache c' radius = Some a" by blast
  from g(2,3) have lt: "a < length (arrays c')" and good: "good_circle radius (arrays c' ! a)"
    by (auto simp add: cache_inv_def)
  have cells: "\<forall>row \<in> set (arrays c' ! a). length row = 2 * radius + 1 \<and>
                (\<forall>cell \<in> set row. cell = None \<or> cell = Some True)"
  proof (intro ballI conjI)
    fix row assume r: "row \<in> set (arrays c' ! a)"
    then show "length row = 2 * radius + 1" using good by (auto simp add: good_circle_def sq_def)
    fix cell assume "cell \<in> set row"
    then have "cell \<noteq> Some False" using r good by (auto simp add: good_circle_def sq_def)
    then show "cell = None \<or> cell = Some True" by (cases cell) auto
  qed
  have again: "getCircleArray radius c' = Inr (a, c')"
    using g(3) by (simp add: getCircleArray_def)
  show ?thesis using g(1) lt good cells again
    by (auto simp add: good_circle_def sq_def)
qed

theorem getCircleArray_square_and_memoized_witness:
  "cache_reachable initial_circle_cache \<and>
   (\<exists>a c'. getCircleArray 2 initial_circle_cache = Inr (a, c') \<and> a < length (arrays c') \<and>
           length (arrays c' ! a) = 5 \<and>
           (\<forall>row \<in> set (arrays c' ! a). length row = 5 \<and>
                (\<forall>cell \<in> set row. cell = None \<or> cell = Some True)) \<and>
           arrays c' ! a ! 2 ! 2 = Some True \<and>
           getCircleArray 2 c' = Inr (a, c'))"
  using getCircleArray_square_and_memoized[OF cache_initial, of 2] cache_initial by simp

section \<open>Properties of the canvas builder\<close>

lemma walked_count:
  assumes "0 < stride" "i < endIdx"
  shows "(endIdx - i + stride - 1) div stride = Suc ((endIdx - (i + stride) + stride - 1) div stride)"
proof (cases "i + stride \<le> endIdx")
  case True
  have "endIdx - i + stride - 1 = (endIdx - (i + stride) + stride - 1) + stride"
    using True assms by linarith
  then have "(endIdx - i + stride - 1) div stride
           = ((endIdx - (i + stride) + stride - 1) + stride) div stride"
    by (rule arg_cong)
  also have "\<dots> = (endIdx - (i + stride) + stride - 1) div stride + 1"
    using assms(1) by (simp only: div_add_self2)
  finally show ?thesis by (simp only: Suc_eq_plus1)
next
  case False
  then have a: "endIdx - (i + stride) + stride - 1 = stride - 1" by linarith
  have lo: "stride \<le> endIdx - i + stride - 1" using assms by linarith
  have hi: "endIdx - i + stride - 1 < 2 * stride" using False assms by linarith
  have "endIdx - i + stride - 1 = (endIdx - i - 1) + stride" using assms by linarith
  then have "(endIdx - i + stride - 1) div stride = ((endIdx - i - 1) + stride) div stride"
    by (rule arg_cong)
  also have "\<dots> = (endIdx - i - 1) div stride + 1"
    using assms(1) by (simp only: div_add_self2)
  also have "(endIdx - i - 1) div stride = 0"
    using hi by (intro div_less) linarith
  finally have "(endIdx - i + stride - 1) div stride = 1" by (simp only: add_0)
  moreover have "(stride - 1) div stride = 0" using assms(1) by (intro div_less) linarith
  ultimately show ?thesis unfolding a by (simp only: One_nat_def)
qed

lemma walked_step:
  assumes "0 < stride" "i < endIdx"
  shows "walked fc endIdx stride i =
           (js_nth fc i, js_nth fc (i + 1)) # walked fc endIdx stride (i + stride)"
proof -
  have shift: "\<And>j. i + Suc j * stride = i + stride + j * stride" by (simp only: mult_Suc add.assoc)
  show ?thesis
    unfolding walked_def walked_count[OF assms]
    by (simp only: upt_conv_Cons[OF zero_less_Suc] list.map mult_0 add_0_right
          map_Suc_upt[symmetric] map_map comp_def shift)
qed

lemma walked_done: "endIdx \<le> i \<Longrightarrow> 0 < stride \<Longrightarrow> walked fc endIdx stride i = []"
  by (simp add: walked_def)

lemma flat_append: "flat (a @ b) = flat a @ flat b"
  by (simp add: flat_def)

lemma length_flat: "length (flat ps) = 2 * length ps"
  by (induction ps) (simp_all add: flat_def)

lemma append_loop_step:
  assumes "i < endIdx" "stride \<noteq> 0" "p = (js_nth fc i, js_nth fc (i + 1))"
  shows "append_loop rel fc endIdx stride i lastCoord lastRel skipped cs =
     (if Some (rel p) \<noteq> lastRel then
        append_loop rel fc endIdx stride (i + stride) p (Some (rel p)) False
          ((if skipped then cs @ [fst lastCoord, snd lastCoord] else cs) @ [fst p, snd p])
      else if rel p = INTERSECTING then
        append_loop rel fc endIdx stride (i + stride) p (Some (rel p)) False (cs @ [fst p, snd p])
      else append_loop rel fc endIdx stride (i + stride) p (Some (rel p)) True cs)"
  unfolding assms(3) using assms(1,2)
  by (subst append_loop.simps[of rel fc endIdx stride i]) (simp add: Let_def)

lemma append_loop_done:
  "\<not> i < endIdx \<Longrightarrow>
   append_loop rel fc endIdx stride i lastCoord lastRel skipped cs = Some (i, lastCoord, skipped, cs)"
  by (subst append_loop.simps) simp

lemma append_loop_keep_points:
  "0 < stride \<Longrightarrow>
   append_loop rel fc endIdx stride i lastCoord lastRel skipped (cs @ flat out) =
     (case keep_points rel (walked fc endIdx stride i) lastCoord lastRel skipped out of
        (lc, sk, out') \<Rightarrow>
          Some (i + stride * length (walked fc endIdx stride i), lc, sk, cs @ flat out'))"
proof (induction "walked fc endIdx stride i" arbitrary: i lastCoord lastRel skipped out)
  case Nil
  have "\<not> i < endIdx"
  proof
    assume "i < endIdx"
    from walked_step[OF Nil.prems this, of fc] Nil.hyps show False by simp
  qed
  then have "append_loop rel fc endIdx stride i lastCoord lastRel skipped (cs @ flat out)
      = Some (i, lastCoord, skipped, cs @ flat out)"
    by (rule append_loop_done)
  then show ?case using Nil.hyps[symmetric] by simp
next
  case (Cons p ps)
  have lt: "i < endIdx"
  proof (rule ccontr)
    assume "\<not> i < endIdx"
    then have "walked fc endIdx stride i = []" using Cons.prems by (simp add: walked_done)
    then show False using Cons.hyps(2) by simp
  qed
  note w = walked_step[OF Cons.prems lt, of fc]
  from w Cons.hyps(2) have p: "p = (js_nth fc i, js_nth fc (i + 1))"
    and ps: "ps = walked fc endIdx stride (i + stride)" by simp_all
  have s: "stride \<noteq> 0" using Cons.prems by simp
  have wp: "walked fc endIdx stride i = p # walked fc endIdx stride (i + stride)"
    using Cons.hyps(2) ps by simp
  have len: "i + stride * length (walked fc endIdx stride i)
             = (i + stride) + stride * length (walked fc endIdx stride (i + stride))"
    by (simp add: wp)
  show ?case
  proof (cases "Some (rel p) \<noteq> lastRel")
    case a: True
    let ?out2 = "(if skipped then out @ [lastCoord] else out) @ [p]"
    have e: "(if skipped then (cs @ flat out) @ [fst lastCoord, snd lastCoord] else cs @ flat out) @ [fst p, snd p]
              = cs @ flat ?out2"
      by (simp add: flat_def)
    have "append_loop rel fc endIdx stride i lastCoord lastRel skipped (cs @ flat out)
        = append_loop rel fc endIdx stride (i + stride) p (Some (rel p)) False (cs @ flat ?out2)"
      using a e by (simp add: append_loop_step[OF lt s p])
    also have "\<dots> = (case keep_points rel (walked fc endIdx stride (i + stride)) p (Some (rel p)) False ?out2 of
        (lc, sk, out') \<Rightarrow>
          Some ((i + stride) + stride * length (walked fc endIdx stride (i + stride)), lc, sk, cs @ flat out'))"
      by (rule Cons.hyps(1)[OF ps Cons.prems])
    also have "\<dots> = (case keep_points rel (walked fc endIdx stride i) lastCoord lastRel skipped out of
        (lc, sk, out') \<Rightarrow>
          Some (i + stride * length (walked fc endIdx stride i), lc, sk, cs @ flat out'))"
      unfolding len using a by (simp add: wp)
    finally show ?thesis .
  next
    case b: False
    show ?thesis
    proof (cases "rel p = INTERSECTING")
      case c: True
      have e: "(cs @ flat out) @ [fst p, snd p] = cs @ flat (out @ [p])"
        by (simp add: flat_def)
      have "append_loop rel fc endIdx stride i lastCoord lastRel skipped (cs @ flat out)
          = append_loop rel fc endIdx stride (i + stride) p (Some (rel p)) False (cs @ flat (out @ [p]))"
        using b c e by (simp add: append_loop_step[OF lt s p])
      also have "\<dots> = (case keep_points rel (walked fc endIdx stride (i + stride)) p (Some (rel p)) False (out @ [p]) of
          (lc, sk, out') \<Rightarrow>
            Some ((i + stride) + stride * length (walked fc endIdx stride (i + stride)), lc, sk, cs @ flat out'))"
        by (rule Cons.hyps(1)[OF ps Cons.prems])
      also have "\<dots> = (case keep_points rel (walked fc endIdx stride i) lastCoord lastRel skipped out of
          (lc, sk, out') \<Rightarrow>
            Some (i + stride * length (walked fc endIdx stride i), lc, sk, cs @ flat out'))"
        unfolding len using b c by (simp add: wp)
      finally show ?thesis .
    next
      case d: False
      have "append_loop rel fc endIdx stride i lastCoord lastRel skipped (cs @ flat out)
          = append_loop rel fc endIdx stride (i + stride) p (Some (rel p)) True (cs @ flat out)"
        using b d by (simp add: append_loop_step[OF lt s p])
      also have "\<dots> = (case keep_points rel (walked fc endIdx stride (i + stride)) p (Some (rel p)) True out of
          (lc, sk, out') \<Rightarrow>
            Some ((i + stride) + stride * length (walked fc endIdx stride (i + stride)), lc, sk, cs @ flat out'))"
        by (rule Cons.hyps(1)[OF ps Cons.prems])
      also have "\<dots> = (case keep_points rel (walked fc endIdx stride i) lastCoord lastRel skipped out of
          (lc, sk, out') \<Rightarrow>
            Some (i + stride * length (walked fc endIdx stride i), lc, sk, cs @ flat out'))"
        unfolding len using b d by (simp add: wp)
      finally show ?thesis .
    qed
  qed
qed

lemma keep_points_length:
  "keep_points rel ps lc lr sk out = (lc', sk', out') \<Longrightarrow>
   \<exists>ext. out' = out @ ext \<and>
         length ext + (if sk' then 1 else 0) \<le> length ps + (if sk then 1 else 0)"
proof (induction ps arbitrary: lc lr sk out)
  case Nil
  then show ?case by simp
next
  case (Cons p ps)
  show ?case
  proof (cases "Some (rel p) \<noteq> lr")
    case True
    with Cons.prems have "keep_points rel ps p (Some (rel p)) False
        ((if sk then out @ [lc] else out) @ [p]) = (lc', sk', out')" by simp
    from Cons.IH[OF this] obtain ext where
      "out' = ((if sk then out @ [lc] else out) @ [p]) @ ext"
      "length ext + (if sk' then 1 else 0) \<le> length ps + 0" by auto
    then show ?thesis by (cases sk) auto
  next
    case False
    show ?thesis
    proof (cases "rel p = INTERSECTING")
      case True
      with False Cons.prems have "keep_points rel ps p (Some (rel p)) False (out @ [p]) = (lc', sk', out')"
        by simp
      from Cons.IH[OF this] obtain ext where
        "out' = (out @ [p]) @ ext" "length ext + (if sk' then 1 else 0) \<le> length ps + 0" by auto
      then show ?thesis by auto
    next
      case f: False
      with False Cons.prems have "keep_points rel ps p (Some (rel p)) True out = (lc', sk', out')"
        by simp
      from Cons.IH[OF this] obtain ext where
        "out' = out @ ext" "length ext + (if sk' then 1 else 0) \<le> length ps + 1" by auto
      then show ?thesis by auto
    qed
  qed
qed

lemma keep_points_transitions:
  "keep_points rel ps lc lr sk out = (lc', sk', out') \<Longrightarrow>
   lr = None \<or> lr = Some (rel lc) \<Longrightarrow> (\<not> sk \<longrightarrow> lc \<in> set out) \<Longrightarrow>
   (\<forall>k. Suc k < length (lc # ps) \<and> rel ((lc # ps) ! k) \<noteq> rel ((lc # ps) ! Suc k)
        \<longrightarrow> (lc # ps) ! k \<in> set out' \<and> (lc # ps) ! Suc k \<in> set out') \<and>
   (\<not> sk' \<longrightarrow> lc' \<in> set out') \<and> set out \<subseteq> set out' \<and> lc' = last (lc # ps)"
proof (induction ps arbitrary: lc lr sk out)
  case Nil
  then show ?case by simp
next
  case (Cons p ps)
  define out2 sk2 where "out2 = (if Some (rel p) \<noteq> lr then (if sk then out @ [lc] else out) @ [p]
                                 else if rel p = INTERSECTING then out @ [p] else out)"
    and "sk2 = (Some (rel p) = lr \<and> rel p \<noteq> INTERSECTING)"
  have run: "keep_points rel ps p (Some (rel p)) sk2 out2 = (lc', sk', out')"
    using Cons.prems(1) by (auto simp add: out2_def sk2_def split: if_splits)
  have inv: "\<not> sk2 \<longrightarrow> p \<in> set out2" by (auto simp add: out2_def sk2_def)
  have sub: "set out \<subseteq> set out2" by (auto simp add: out2_def)
  have pre: "Some (rel p) = None \<or> Some (rel p) = Some (rel p)" by simp
  note IH = Cons.IH[OF run pre inv]
  have ih: "\<forall>k. Suc k < length (p # ps) \<and> rel ((p # ps) ! k) \<noteq> rel ((p # ps) ! Suc k)
        \<longrightarrow> (p # ps) ! k \<in> set out' \<and> (p # ps) ! Suc k \<in> set out'"
    and fin: "\<not> sk' \<longrightarrow> lc' \<in> set out'" and sub2: "set out2 \<subseteq> set out'"
    and lst: "lc' = last (p # ps)"
    using IH by blast+
  have first: "rel lc \<noteq> rel p \<Longrightarrow> lc \<in> set out2 \<and> p \<in> set out2"
    using Cons.prems(2,3) by (auto simp add: out2_def)
  have "\<forall>k. Suc k < length (lc # p # ps) \<and> rel ((lc # p # ps) ! k) \<noteq> rel ((lc # p # ps) ! Suc k)
        \<longrightarrow> (lc # p # ps) ! k \<in> set out' \<and> (lc # p # ps) ! Suc k \<in> set out'"
  proof (intro allI impI)
    fix k assume a: "Suc k < length (lc # p # ps) \<and> rel ((lc # p # ps) ! k) \<noteq> rel ((lc # p # ps) ! Suc k)"
    show "(lc # p # ps) ! k \<in> set out' \<and> (lc # p # ps) ! Suc k \<in> set out'"
    proof (cases k)
      case 0
      then show ?thesis using a first sub2 by auto
    next
      case (Suc j)
      then show ?thesis using a ih by simp
    qed
  qed
  then show ?case using fin sub sub2 lst by auto
qed

text \<open>
  Claim C3, as amended. When the range handed to \<open>appendFlatCoordinates\<close> holds at least
  one point (after the first is skipped, when asked) and the stride is positive, the call
  returns, appends to the coordinate buffer only, and whenever two consecutive walked
  points are classified differently both of them are among the appended points. The
  number of appended points is at most the number of walked points; counted in numbers,
  the appended length is at most \<open>endIdx\<close> minus the first index when the stride is at
  least 2 and divides that length.
\<close>

theorem appendFlatCoordinates_keeps_transitions:
  fixes fc :: "real list"
  assumes "0 < stride" and "first_index offset stride skipFirst < endIdx"
  defines "pts \<equiv> walked fc endIdx stride (first_index offset stride skipFirst)"
  shows "\<exists>myEnd b' out.
           appendFlatCoordinates rel b fc offset endIdx stride closedRing skipFirst = Some (myEnd, b') \<and>
           coordinates b' = coordinates b @ flat out \<and> myEnd = length (coordinates b') \<and>
           (\<forall>k. Suc k < length pts \<and> rel (pts ! k) \<noteq> rel (pts ! Suc k)
                \<longrightarrow> pts ! k \<in> set out \<and> pts ! Suc k \<in> set out) \<and>
           length out \<le> length pts \<and>
           (2 \<le> stride \<and> stride dvd (endIdx - first_index offset stride skipFirst)
              \<longrightarrow> length (flat out) \<le> endIdx - first_index offset stride skipFirst)"
proof -
  define o1 where "o1 = first_index offset stride skipFirst"
  define p0 where "p0 = (js_nth fc o1, js_nth fc (o1 + 1))"
  define rest where "rest = walked fc endIdx stride (o1 + stride)"
  have lt: "o1 < endIdx" using assms(2) by (simp add: o1_def)
  have pts: "pts = p0 # rest"
    unfolding pts_def rest_def p0_def o1_def[symmetric] by (rule walked_step[OF assms(1) lt])
  obtain lc sk out1 where kp: "keep_points rel rest p0 None True [] = (lc, sk, out1)"
    by (cases "keep_points rel rest p0 None True []") auto
  from append_loop_keep_points[OF assms(1), of rel fc endIdx "o1 + stride" p0 None True "coordinates b" "[]"]
  have loop: "append_loop rel fc endIdx stride (o1 + stride) p0 None True (coordinates b)
              = Some (o1 + stride + stride * length rest, lc, sk, coordinates b @ flat out1)"
    using kp by (simp add: flat_def rest_def)
  define out where "out = (if (closedRing \<and> sk) \<or> rest = [] then out1 @ [lc] else out1)"
  have iff: "o1 + stride + stride * length rest = o1 + stride \<longleftrightarrow> rest = []"
    using assms(1) by simp
  have res: "appendFlatCoordinates rel b fc offset endIdx stride closedRing skipFirst
             = Some (length (coordinates b @ flat out), b\<lparr>coordinates := coordinates b @ flat out\<rparr>)"
    unfolding appendFlatCoordinates_def first_index_def[symmetric] o1_def[symmetric] Let_def
      p0_def[symmetric] loop
    using assms(1) by (simp add: out_def flat_def)
  from keep_points_length[OF kp] obtain ext where ext: "out1 = [] @ ext"
     "length ext + (if sk then 1 else 0) \<le> length rest + 1" by auto
  have len: "length out \<le> length pts"
  proof (cases "rest = []")
    case True
    then have "out1 = []" using kp by simp
    then show ?thesis using True by (simp add: out_def pts)
  next
    case False
    then show ?thesis using ext by (auto simp add: out_def pts)
  qed
  from keep_points_transitions[OF kp] have
    tr: "\<forall>k. Suc k < length (p0 # rest) \<and> rel ((p0 # rest) ! k) \<noteq> rel ((p0 # rest) ! Suc k)
        \<longrightarrow> (p0 # rest) ! k \<in> set out1 \<and> (p0 # rest) ! Suc k \<in> set out1" by simp
  have sub: "set out1 \<subseteq> set out" by (auto simp add: out_def)
  have trans: "\<forall>k. Suc k < length pts \<and> rel (pts ! k) \<noteq> rel (pts ! Suc k)
                \<longrightarrow> pts ! k \<in> set out \<and> pts ! Suc k \<in> set out"
    using tr sub unfolding pts by blast
  have flatlen: "2 \<le> stride \<and> stride dvd (endIdx - o1) \<longrightarrow> length (flat out) \<le> endIdx - o1"
  proof
    assume a: "2 \<le> stride \<and> stride dvd (endIdx - o1)"
    then obtain m where m: "endIdx - o1 = stride * m" by (auto simp add: dvd_def)
    have "length pts = (endIdx - o1 + stride - 1) div stride"
      by (simp add: pts_def walked_def o1_def)
    also have "endIdx - o1 + stride - 1 = (stride - 1) + m * stride"
      using m assms(1) by (simp add: mult.commute)
    also have "((stride - 1) + m * stride) div stride = m"
    proof -
      have nz: "stride \<noteq> 0" using assms(1) by simp
      have z: "(stride - 1) div stride = 0" using assms(1) by (intro div_less) linarith
      show ?thesis unfolding div_mult_self1[OF nz] z by (rule add_0_right)
    qed
    finally have "length pts = m" .
    then have "2 * length out \<le> 2 * m" using len by simp
    also have "\<dots> \<le> stride * m" using a by simp
    finally show "length (flat out) \<le> endIdx - o1" using m by (simp add: length_flat)
  qed
  show ?thesis
    using res trans len flatlen unfolding o1_def by (intro exI[of _ "length (coordinates b @ flat out)"]
        exI[of _ "b\<lparr>coordinates := coordinates b @ flat out\<rparr>"] exI[of _ out]) simp
qed

theorem appendFlatCoordinates_keeps_transitions_witness:
  "(0::nat) < 2 \<and> first_index 0 2 False < 10 \<and>
   (\<exists>myEnd b' out.
      appendFlatCoordinates in_square (new_builder 1) [5, 5, 20, 20, 30, 30, 40, 40, 6, 6] 0 10 2 False False
        = Some (myEnd, b') \<and>
      coordinates b' = coordinates (new_builder 1) @ flat out \<and>
      length out \<le> length (walked [5, 5, 20, 20, 30, 30, 40, 40, 6, 6] 10 2 (first_index 0 2 False)))"
proof -
  have h1: "(0::nat) < 2" by simp
  have h2: "first_index 0 2 False < 10" by (simp add: first_index_def)
  from appendFlatCoordinates_keeps_transitions[OF h1 h2,
      where fc = "[5, 5, 20, 20, 30, 30, 40, 40, 6, 6]" and rel = in_square
        and b = "new_builder 1" and closedRing = False]
  show ?thesis using h1 h2 by blast
qed

text \<open>
  Claim C3 as stated fails on an empty range: no point is walked, and the function still
  appends one point, read past the end of the input (two \<open>undefined\<close> numbers).
\<close>

theorem appendFlatCoordinates_empty_range_counterexample:
  "walked [] 0 2 (first_index 0 2 False) = [] \<and>
   appendFlatCoordinates in_square (new_builder 1) [] 0 0 2 False False
     = Some (2, (new_builder 1)\<lparr>coordinates := [None, None]\<rparr>)"
  by (simp add: walked_def first_index_def appendFlatCoordinates_def append_loop_done
      new_builder_def js_nth_def)

text \<open>
  Claim C7. On a LineString builder whose state has an undefined stroke style or an
  undefined line width, \<open>drawLineString\<close> and \<open>drawMultiLineString\<close> return at once: the
  builder, and with it the render instructions, the hit-detection instructions and the
  coordinate buffer, is exactly as before.
\<close>

theorem drawLineString_without_stroke_emits_nothing:
  assumes "state b = Some s" and "strokeStyle s = None \<or> lineWidth s = None"
  shows "drawLineString rel b g f = Some (Inr b) \<and> drawMultiLineString rel b g f = Some (Inr b)"
  using assms by (auto simp add: drawLineString_def drawMultiLineString_def)

theorem drawLineString_without_stroke_emits_nothing_witness:
  "state (new_builder 1) = Some empty_state \<and>
   (strokeStyle empty_state = None \<or> lineWidth empty_state = None) \<and>
   drawLineString in_square (new_builder 1)
     \<lparr>getFlatCoordinates = [0, 0, 5, 5], getStride = 2, getEnds = [4]\<rparr>
     \<lparr>feature_uid = 7, feature_extent = Some (0, 0, 5, 5)\<rparr> = Some (Inr (new_builder 1)) \<and>
   drawMultiLineString in_square (new_builder 1)
     \<lparr>getFlatCoordinates = [0, 0, 5, 5], getStride = 2, getEnds = [4]\<rparr>
     \<lparr>feature_uid = 7, feature_extent = Some (0, 0, 5, 5)\<rparr> = Some (Inr (new_builder 1))"
proof -
  have h1: "state (new_builder 1) = Some empty_state" by (simp add: new_builder_def)
  have h2: "strokeStyle empty_state = None \<or> lineWidth empty_state = None"
    by (simp add: empty_state_def)
  from drawLineString_without_stroke_emits_nothing[OF h1 h2] h1 h2
  show ?thesis by blast
qed

section \<open>Properties of the hit-detection reversal\<close>

lemma reverse_loop_done: "\<not> i < n \<Longrightarrow> reverse_loop n i b arr = Some arr"
  by (subst reverse_loop.simps) simp

lemma reverse_loop_END:
  "i < n \<Longrightarrow> js_nth arr i = Some (END_GEOMETRY f) \<Longrightarrow>
   reverse_loop n i b arr = reverse_loop n (i + 1) (int i) arr"
  by (subst reverse_loop.simps[of n i b arr]) simp

lemma reverse_loop_BEGIN:
  "i < n \<Longrightarrow> js_nth arr i = Some (BEGIN_GEOMETRY f s) \<Longrightarrow>
   reverse_loop n i b arr =
     (case reverseSubArray (arr[i := BEGIN_GEOMETRY f i]) b i of
        None \<Rightarrow> None
      | Some arr' \<Rightarrow> reverse_loop n (i + 1) (- 1) arr')"
  by (subst reverse_loop.simps[of n i b arr]) simp

lemma reverse_loop_plain:
  "i < n \<Longrightarrow> js_nth arr i = Some ins \<Longrightarrow> \<not> bracket ins \<Longrightarrow>
   reverse_loop n i b arr = reverse_loop n (i + 1) b arr"
  by (subst reverse_loop.simps[of n i b arr]) (cases ins; simp)

lemma js_nth_append_mid: "js_nth (Q @ x # S) (length Q) = Some x"
  by (simp add: js_nth_def)

lemma reverse_loop_skip_plain:
  "list_all (\<lambda>ins. \<not> bracket ins) X \<Longrightarrow> n = length (Q @ X @ S) \<Longrightarrow>
   reverse_loop n (length Q) b (Q @ X @ S) = reverse_loop n (length Q + length X) b (Q @ X @ S)"
proof (induction X arbitrary: Q)
  case Nil
  then show ?case by simp
next
  case (Cons x X)
  have lt: "length Q < n" using Cons.prems(2) by simp
  have nth: "js_nth (Q @ (x # X) @ S) (length Q) = Some x"
    using js_nth_append_mid[of Q x "X @ S"] by simp
  have nb: "\<not> bracket x" using Cons.prems(1) by simp
  have "reverse_loop n (length Q) b (Q @ (x # X) @ S)
        = reverse_loop n (length Q + 1) b (Q @ (x # X) @ S)"
    by (rule reverse_loop_plain[OF lt nth nb])
  also have "\<dots> = reverse_loop n (length (Q @ [x])) b ((Q @ [x]) @ X @ S)" by simp
  also have "\<dots> = reverse_loop n (length (Q @ [x]) + length X) b ((Q @ [x]) @ X @ S)"
    using Cons.prems by (intro Cons.IH) simp_all
  finally show ?case by simp
qed

lemma reverseSubArray_block:
  assumes "i = length P + length body + 1"
  shows "reverseSubArray ((P @ END_GEOMETRY f' # rev body @ [BEGIN_GEOMETRY f s] @ R)[i := BEGIN_GEOMETRY f i])
           (int (length P)) i
         = Some (P @ (BEGIN_GEOMETRY f i # body @ [END_GEOMETRY f']) @ R)"
proof -
  let ?blk = "END_GEOMETRY f' # rev body @ [BEGIN_GEOMETRY f i]"
  have upd: "(P @ END_GEOMETRY f' # rev body @ [BEGIN_GEOMETRY f s] @ R)[i := BEGIN_GEOMETRY f i]
             = P @ ?blk @ R"
  proof -
    have "(P @ (END_GEOMETRY f' # rev body) @ BEGIN_GEOMETRY f s # R)[length (P @ (END_GEOMETRY f' # rev body)) := BEGIN_GEOMETRY f i]
          = P @ (END_GEOMETRY f' # rev body) @ BEGIN_GEOMETRY f i # R"
      using list_update_length[of "P @ (END_GEOMETRY f' # rev body)" "BEGIN_GEOMETRY f s" R "BEGIN_GEOMETRY f i"]
      by simp
    moreover have "length (P @ (END_GEOMETRY f' # rev body)) = i" using assms by simp
    ultimately show ?thesis by simp
  qed
  have len: "length ?blk = i + 1 - length P" using assms by simp
  have t: "take (length P) (P @ ?blk @ R) = P" by simp
  have d: "drop (length P) (P @ ?blk @ R) = ?blk @ R" by simp
  have tk0: "take (length ?blk) (?blk @ R) = ?blk" by simp
  have tk: "take (i + 1 - length P) (?blk @ R) = ?blk"
    by (subst len[symmetric]) (rule tk0)
  have dr: "drop (i + 1) (P @ ?blk @ R) = R"
  proof -
    have "i + 1 = length (P @ ?blk)" using assms by simp
    then show ?thesis by (metis append.assoc append_eq_conv_conj)
  qed
  have rv: "rev ?blk = BEGIN_GEOMETRY f i # body @ [END_GEOMETRY f']" by simp
  have c1: "\<not> (int (length P) < 0 \<or> length (P @ ?blk @ R) \<le> i)" using assms by simp
  have c2: "nat (int (length P)) < i" using assms by simp
  show ?thesis
    unfolding upd reverseSubArray_def
    using c1 c2 by (simp only: if_False if_True nat_int t d tk dr rv)
qed

lemma reverse_loop_blocks:
  "plain_bodies bs \<Longrightarrow> n = length (P @ concat (map reversed_block bs)) \<Longrightarrow>
   reverse_loop n (length P) (- 1) (P @ concat (map reversed_block bs))
     = Some (P @ relocate (length P) bs)"
proof (induction bs arbitrary: P)
  case Nil
  then show ?case by (simp add: reverse_loop_done)
next
  case (Cons blk bs)
  obtain f s body f' where blk: "blk = (f, s, body, f')" by (cases blk) auto
  define R where "R = concat (map reversed_block bs)"
  define A where "A = P @ END_GEOMETRY f' # rev body @ [BEGIN_GEOMETRY f s] @ R"
  define i where "i = length P + length body + 1"
  have A: "P @ concat (map reversed_block (blk # bs)) = A" by (simp add: A_def R_def blk)
  have n: "n = length A" using Cons.prems(2) unfolding A .
  have pb: "list_all (\<lambda>ins. \<not> bracket ins) (rev body)" and pbs: "plain_bodies bs"
    using Cons.prems(1) by (simp_all add: plain_bodies_def blk)
  have lt0: "length P < n" using n by (simp add: A_def)
  have "reverse_loop n (length P) (- 1) A = reverse_loop n (length P + 1) (int (length P)) A"
    using js_nth_append_mid[of P "END_GEOMETRY f'" "rev body @ [BEGIN_GEOMETRY f s] @ R"]
    by (intro reverse_loop_END[OF lt0]) (simp add: A_def)
  also have "\<dots> = reverse_loop n (length (P @ [END_GEOMETRY f'])) (int (length P))
                      ((P @ [END_GEOMETRY f']) @ rev body @ ([BEGIN_GEOMETRY f s] @ R))"
    by (simp add: A_def)
  also have "\<dots> = reverse_loop n (length (P @ [END_GEOMETRY f']) + length (rev body)) (int (length P))
                      ((P @ [END_GEOMETRY f']) @ rev body @ ([BEGIN_GEOMETRY f s] @ R))"
    using n by (intro reverse_loop_skip_plain[OF pb]) (simp add: A_def)
  also have "\<dots> = reverse_loop n i (int (length P)) A" by (simp add: A_def i_def)
  also have "\<dots> = (case reverseSubArray (A[i := BEGIN_GEOMETRY f i]) (int (length P)) i of
                      None \<Rightarrow> None | Some arr' \<Rightarrow> reverse_loop n (i + 1) (- 1) arr')"
  proof (rule reverse_loop_BEGIN)
    show "i < n" using n by (simp add: A_def i_def)
    have "js_nth ((P @ END_GEOMETRY f' # rev body) @ BEGIN_GEOMETRY f s # R)
            (length (P @ END_GEOMETRY f' # rev body)) = Some (BEGIN_GEOMETRY f s)"
      by (rule js_nth_append_mid)
    then show "js_nth A i = Some (BEGIN_GEOMETRY f s)" by (simp add: A_def i_def)
  qed
  also have "\<dots> = reverse_loop n (i + 1) (- 1) (P @ (BEGIN_GEOMETRY f i # body @ [END_GEOMETRY f']) @ R)"
    unfolding A_def using reverseSubArray_block[OF i_def, of f' f s R] by simp
  also have "\<dots> = reverse_loop n (length (P @ BEGIN_GEOMETRY f i # body @ [END_GEOMETRY f'])) (- 1)
                     ((P @ BEGIN_GEOMETRY f i # body @ [END_GEOMETRY f']) @ concat (map reversed_block bs))"
    by (simp add: i_def R_def)
  also have "\<dots> = Some ((P @ BEGIN_GEOMETRY f i # body @ [END_GEOMETRY f'])
                          @ relocate (length (P @ BEGIN_GEOMETRY f i # body @ [END_GEOMETRY f'])) bs)"
    using n by (intro Cons.IH[OF pbs]) (simp add: A_def R_def)
  also have "\<dots> = Some (P @ relocate (length P) (blk # bs))"
    by (simp add: blk i_def)
  finally show ?case unfolding A .
qed

lemma relocate_Cons:
  "relocate pos ((f, s, body, f') # bs) =
     (BEGIN_GEOMETRY f (pos + length body + 1) # body @ [END_GEOMETRY f'])
       @ relocate (pos + length body + 2) bs"
  by simp

lemma relocate_block:
  "j < length bs \<Longrightarrow> bs ! j = (f, s, body, f') \<Longrightarrow>
   relocate pos bs ! block_start bs j = BEGIN_GEOMETRY f (pos + block_start bs j + length body + 1) \<and>
   take (length body) (drop (block_start bs j + 1) (relocate pos bs)) = body \<and>
   relocate pos bs ! (block_start bs j + length body + 1) = END_GEOMETRY f'"
proof (induction bs arbitrary: pos j)
  case Nil
  then show ?case by simp
next
  case (Cons b bs)
  obtain g t bd g' where b: "b = (g, t, bd, g')" by (cases b) auto
  let ?L = "BEGIN_GEOMETRY g (pos + length bd + 1) # bd @ [END_GEOMETRY g']"
  have L: "length ?L = length bd + 2" by simp
  have rel: "relocate pos (b # bs) = ?L @ relocate (pos + length bd + 2) bs"
    unfolding b by (rule relocate_Cons)
  show ?case
  proof (cases j)
    case 0
    then have e: "g = f" "bd = body" "g' = f'" using Cons.prems(2) b by simp_all
    have st: "block_start (b # bs) j = 0" using 0 by (simp add: block_start_def)
    show ?thesis unfolding st rel e by (simp add: nth_append)
  next
    case (Suc k)
    then have k: "k < length bs" "bs ! k = (f, s, body, f')" using Cons.prems by simp_all
    have st: "block_start (b # bs) j = length ?L + block_start bs k"
      using Suc by (simp add: block_start_def b)
    note ih = Cons.IH[OF k, of "pos + length bd + 2"]
    have n1: "(?L @ relocate (pos + length bd + 2) bs) ! (length ?L + block_start bs k)
              = relocate (pos + length bd + 2) bs ! block_start bs k"
      by (rule nth_append_length_plus)
    have n2: "(?L @ relocate (pos + length bd + 2) bs) ! (length ?L + (block_start bs k + length body + 1))
              = relocate (pos + length bd + 2) bs ! (block_start bs k + length body + 1)"
      by (rule nth_append_length_plus)
    have d: "drop (length ?L + (block_start bs k + 1)) (?L @ relocate (pos + length bd + 2) bs)
             = drop (block_start bs k + 1) (relocate (pos + length bd + 2) bs)"
      by (simp only: drop_append length_drop) simp
    have a1: "block_start (b # bs) j + 1 = length ?L + (block_start bs k + 1)"
      and a2: "block_start (b # bs) j + length body + 1 = length ?L + (block_start bs k + length body + 1)"
      using st by simp_all
    show ?thesis
      unfolding rel a1 a2 d n2
      unfolding st n1
      using ih by (simp add: add.assoc add.left_commute)
  qed
qed

text \<open>
  Claim C2. For a hit-detection list made of feature blocks, each a \<open>BEGIN_GEOMETRY\<close>,
  instructions that are no geometry brackets, and an \<open>END_GEOMETRY\<close>,
  \<open>reverseHitDetectionInstructions\<close> returns the blocks in reversed order, every block with
  its instructions in their original order: block \<open>j\<close> of the result is block \<open>j\<close> of the
  reversed list of blocks, it starts with that block's \<open>BEGIN_GEOMETRY\<close>, goes on with
  its inner instructions unchanged and ends with its \<open>END_GEOMETRY\<close>, and the skip field
  of the \<open>BEGIN_GEOMETRY\<close> is the position of that \<open>END_GEOMETRY\<close> in the result.
\<close>

theorem reverseHitDetectionInstructions_reverses_blocks:
  assumes "plain_bodies blocks"
  shows "reverseHitDetectionInstructions (concat (map block_instructions blocks))
           = Some (relocate 0 (rev blocks)) \<and>
         (\<forall>j < length blocks.
            case rev blocks ! j of
              (f, s, body, f') \<Rightarrow>
                relocate 0 (rev blocks) ! block_start (rev blocks) j
                  = BEGIN_GEOMETRY f (block_start (rev blocks) j + length body + 1) \<and>
                take (length body) (drop (block_start (rev blocks) j + 1) (relocate 0 (rev blocks))) = body \<and>
                relocate 0 (rev blocks) ! (block_start (rev blocks) j + length body + 1)
                  = END_GEOMETRY f')"
proof (intro conjI allI impI)
  have rb: "\<And>b. rev (block_instructions b) = reversed_block b"
    by (case_tac b) simp
  have r: "rev (concat (map block_instructions blocks)) = concat (map reversed_block (rev blocks))"
    by (simp add: rev_concat rev_map rb comp_def)
  have pb: "plain_bodies (rev blocks)" using assms by (simp add: plain_bodies_def)
  have "reverse_loop (length (concat (map block_instructions blocks))) (length ([]::instruction list)) (- 1)
          ([] @ concat (map reversed_block (rev blocks)))
        = Some ([] @ relocate (length ([]::instruction list)) (rev blocks))"
  proof (rule reverse_loop_blocks[OF pb])
    have "length (concat (map block_instructions blocks)) = length (rev (concat (map block_instructions blocks)))"
      by simp
    then show "length (concat (map block_instructions blocks))
          = length ([] @ concat (map reversed_block (rev blocks)))"
      unfolding r by simp
  qed
  then show "reverseHitDetectionInstructions (concat (map block_instructions blocks))
           = Some (relocate 0 (rev blocks))"
    unfolding reverseHitDetectionInstructions_def r by simp
next
  fix j assume j: "j < length blocks"
  obtain f s body f' where e: "rev blocks ! j = (f, s, body, f')" by (cases "rev blocks ! j") auto
  have "j < length (rev blocks)" using j by simp
  from relocate_block[OF this e, of 0]
  show "case rev blocks ! j of
              (f, s, body, f') \<Rightarrow>
                relocate 0 (rev blocks) ! block_start (rev blocks) j
                  = BEGIN_GEOMETRY f (block_start (rev blocks) j + length body + 1) \<and>
                take (length body) (drop (block_start (rev blocks) j + 1) (relocate 0 (rev blocks))) = body \<and>
                relocate 0 (rev blocks) ! (block_start (rev blocks) j + length body + 1)
                  = END_GEOMETRY f'"
    unfolding e by simp
qed

theorem reverseHitDetectionInstructions_reverses_blocks_witness:
  "plain_bodies [(feat 1, 4, [BEGIN_PATH, MOVE_TO_LINE_TO 0 4, STROKE], feat 1),
                 (feat 2, 8, [BEGIN_PATH, FILL], feat 2)] \<and>
   reverseHitDetectionInstructions
     [BEGIN_GEOMETRY (feat 1) 4, BEGIN_PATH, MOVE_TO_LINE_TO 0 4, STROKE, END_GEOMETRY (feat 1),
      BEGIN_GEOMETRY (feat 2) 8, BEGIN_PATH, FILL, END_GEOMETRY (feat 2)]
   = Some [BEGIN_GEOMETRY (feat 2) 3, BEGIN_PATH, FILL, END_GEOMETRY (feat 2),
           BEGIN_GEOMETRY (feat 1) 8, BEGIN_PATH, MOVE_TO_LINE_TO 0 4, STROKE, END_GEOMETRY (feat 1)]"
proof -
  have h: "plain_bodies [(feat 1, 4, [BEGIN_PATH, MOVE_TO_LINE_TO 0 4, STROKE], feat 1),
                 (feat 2, 8, [BEGIN_PATH, FILL], feat 2)]"
    by (simp add: plain_bodies_def)
  from reverseHitDetectionInstructions_reverses_blocks[OF h] h
  show ?thesis by simp
qed

section \<open>Properties of the replay\<close>

lemma execute_loop_continue:
  "cursor s < length ins \<Longrightarrow> step env (ins ! cursor s) s = Continue s' \<Longrightarrow>
   execute_loop env ins s = execute_loop env ins s'"
  by (subst execute_loop.simps[of env ins s]) simp

lemma execute_loop_return:
  "cursor s < length ins \<Longrightarrow> step env (ins ! cursor s) s = Return r s' \<Longrightarrow>
   execute_loop env ins s = Some (Some r, s')"
  by (subst execute_loop.simps[of env ins s]) simp

lemma execute_loop_done:
  "\<not> cursor s < length ins \<Longrightarrow> execute_loop env ins s = Some (None, finish s)"
  by (subst execute_loop.simps[of env ins s]) simp

lemma fill_calls_append [simp]: "fill_calls (a @ b) = fill_calls a + fill_calls b"
  by (simp add: fill_calls_def)

lemma fill_calls_Cons [simp]:
  "fill_calls (c # cs) = (if c = Ctx_fill then 1 else 0) + fill_calls cs"
  by (simp add: fill_calls_def)

lemma fill_calls_Nil [simp]: "fill_calls [] = 0"
  by (simp add: fill_calls_def)

lemma fill_calls_fill: "fill_calls (trace (fill s)) = fill_calls (trace s) + 1"
  by (simp add: fill_def emit_def fill_calls_def)

lemma fill_fields [simp]:
  "cursor (fill s) = cursor s" "pendingFill (fill s) = pendingFill s"
  "pendingStroke (fill s) = pendingStroke s" "alignFill (fill s) = alignFill s"
  by (simp_all add: fill_def emit_def)

lemma step_inert:
  assumes "featureCallback env = None" "opt_hitExtent env = None"
    "inert (skippedFeaturesHash env) ins1"
  shows "\<exists>s1. step env ins1 s = Continue s1 \<and> cursor s1 = cursor s + 1 \<and> same_pending s s1"
  using assms
  by (cases ins1)
     (auto simp add: same_pending_def advance_def emit_def is_skipped_def fill_calls_def)

lemma run_inert:
  assumes "featureCallback env = None" "opt_hitExtent env = None"
  shows "list_all (inert (skippedFeaturesHash env)) xs \<Longrightarrow> ins = pre @ xs @ post \<Longrightarrow>
         cursor s = length pre \<Longrightarrow>
         \<exists>s1. execute_loop env ins s = execute_loop env ins s1 \<and>
              cursor s1 = length pre + length xs \<and> same_pending s s1"
proof (induction xs arbitrary: pre s)
  case Nil
  then show ?case by (intro exI[of _ s]) (simp add: same_pending_def)
next
  case (Cons x xs)
  have lt: "cursor s < length ins" using Cons.prems(2,3) by simp
  have at: "ins ! cursor s = x" using Cons.prems(2,3) by simp
  have px: "inert (skippedFeaturesHash env) x" using Cons.prems(1) by simp
  from step_inert[OF assms px, of s]
  obtain s1 where s1: "step env x s = Continue s1" "cursor s1 = cursor s + 1" "same_pending s s1"
    by blast
  have e1: "execute_loop env ins s = execute_loop env ins s1"
    using execute_loop_continue[OF lt] at s1(1) by simp
  have "\<exists>s2. execute_loop env ins s1 = execute_loop env ins s2 \<and>
              cursor s2 = length (pre @ [x]) + length xs \<and> same_pending s1 s2"
    using Cons.prems s1(2) by (intro Cons.IH) simp_all
  then obtain s2 where s2: "execute_loop env ins s1 = execute_loop env ins s2"
     "cursor s2 = length (pre @ [x]) + length xs" "same_pending s1 s2" by blast
  show ?case
    using e1 s2 s1(3) by (intro exI[of _ s2]) (simp add: same_pending_def)
qed

lemma run_fill_block:
  assumes "featureCallback env = None" "opt_hitExtent env = None"
    and "list_all (inert (skippedFeaturesHash env)) bpre"
    and "list_all (inert (skippedFeaturesHash env)) bpath"
    and "ins = pre @ fill_block (bpre, bpath) @ post"
    and "cursor s = length pre"
  shows "\<exists>s1. execute_loop env ins s = execute_loop env ins s1 \<and>
              cursor s1 = length pre + length (fill_block (bpre, bpath)) \<and>
              pendingFill s1 = (if batchSize env \<noteq> 0
                                then (if pendingFill s > batchSize env then 0 else pendingFill s) + 1
                                else (if pendingFill s > batchSize env then 0 else pendingFill s)) \<and>
              fill_calls (trace s1) = fill_calls (trace s)
                 + (if pendingFill s > batchSize env then 1 else 0)
                 + (if batchSize env \<noteq> 0 then 0 else 1)"
proof -
  have ins1: "ins = pre @ bpre @ (BEGIN_PATH # bpath @ [FILL] @ post)" using assms(5) by simp
  from run_inert[OF assms(1,2) assms(3) ins1 assms(6)]
  obtain s1 where s1: "execute_loop env ins s = execute_loop env ins s1"
     "cursor s1 = length pre + length bpre" "same_pending s s1" by blast
  have lt1: "cursor s1 < length ins" using s1(2) ins1 by simp
  have at1: "ins ! cursor s1 = BEGIN_PATH"
    using s1(2) nth_append_length[of "pre @ bpre" BEGIN_PATH "bpath @ [FILL] @ post"] ins1
    by (simp add: add.assoc)
  obtain s2 where s2: "step env BEGIN_PATH s1 = Continue s2"
    by (simp add: Let_def)
  have ps1: "pendingFill s1 = pendingFill s" "fill_calls (trace s1) = fill_calls (trace s)"
    using s1(3) by (simp_all add: same_pending_def)
  have s2f: "cursor s2 = cursor s1 + 1"
     "pendingFill s2 = (if pendingFill s > batchSize env then 0 else pendingFill s)"
     "fill_calls (trace s2) = fill_calls (trace s) + (if pendingFill s > batchSize env then 1 else 0)"
    using s2 ps1 by (auto simp add: Let_def advance_def emit_def fill_calls_fill split: if_splits)
  have e2: "execute_loop env ins s1 = execute_loop env ins s2"
    using execute_loop_continue[OF lt1] at1 s2 by simp
  have ins2: "ins = (pre @ bpre @ [BEGIN_PATH]) @ bpath @ (FILL # post)" using ins1 by simp
  have c2: "cursor s2 = length (pre @ bpre @ [BEGIN_PATH])" using s2f(1) s1(2) by simp
  from run_inert[OF assms(1,2) assms(4) ins2 c2]
  obtain s3 where s3: "execute_loop env ins s2 = execute_loop env ins s3"
     "cursor s3 = length (pre @ bpre @ [BEGIN_PATH]) + length bpath" "same_pending s2 s3" by blast
  have lt3: "cursor s3 < length ins" using s3(2) ins2 by simp
  have at3: "ins ! cursor s3 = FILL"
    using s3(2) nth_append_length[of "(pre @ bpre @ [BEGIN_PATH]) @ bpath" FILL post] ins2
    by (simp add: add.assoc)
  obtain s4 where s4: "step env FILL s3 = Continue s4" by (cases "batchSize env = 0") simp_all
  have ps3: "pendingFill s3 = pendingFill s2" "fill_calls (trace s3) = fill_calls (trace s2)"
    using s3(3) by (simp_all add: same_pending_def)
  have s4f: "cursor s4 = cursor s3 + 1"
     "pendingFill s4 = (if batchSize env \<noteq> 0 then pendingFill s2 + 1 else pendingFill s2)"
     "fill_calls (trace s4) = fill_calls (trace s2) + (if batchSize env \<noteq> 0 then 0 else 1)"
    using s4 ps3 by (auto simp add: advance_def fill_calls_fill split: if_splits)
  have e4: "execute_loop env ins s3 = execute_loop env ins s4"
    using execute_loop_continue[OF lt3] at3 s4 by simp
  show ?thesis
    using s1(1) e2 s3(1) e4 s4f s2f s3(2)
    by (intro exI[of _ s4]) simp
qed

lemma fill_calls_finish:
  "fill_calls (trace (finish s)) = fill_calls (trace s) + (if pendingFill s \<noteq> 0 then 1 else 0)"
  by (simp add: finish_def Let_def fill_calls_fill emit_def)

lemma run_fill_blocks:
  assumes "featureCallback env = None" "opt_hitExtent env = None"
  shows "inert_blocks (skippedFeaturesHash env) blocks \<Longrightarrow>
         list_all (inert (skippedFeaturesHash env)) rest \<Longrightarrow>
         ins = pre @ concat (map fill_block blocks) @ rest \<Longrightarrow>
         cursor s = length pre \<Longrightarrow>
         \<exists>s'. execute_loop env ins s = Some (None, s') \<and>
              fill_calls (trace s') = fill_calls (trace s)
                 + flushes (batchSize env) (pendingFill s) (length blocks)"
proof (induction blocks arbitrary: pre s)
  case Nil
  have ins: "ins = pre @ rest @ []" using Nil.prems(3) by simp
  from run_inert[OF assms Nil.prems(2) ins Nil.prems(4)]
  obtain s1 where s1: "execute_loop env ins s = execute_loop env ins s1"
    "cursor s1 = length pre + length rest" "same_pending s s1" by blast
  have "\<not> cursor s1 < length ins" using s1(2) ins by simp
  then have "execute_loop env ins s1 = Some (None, finish s1)" by (rule execute_loop_done)
  moreover have "fill_calls (trace (finish s1))
       = fill_calls (trace s) + (if pendingFill s \<noteq> 0 then 1 else 0)"
    using s1(3) fill_calls_finish[of s1] by (simp add: same_pending_def)
  ultimately show ?case using s1(1) by simp
next
  case (Cons b blocks)
  obtain bpre bpath where b: "b = (bpre, bpath)" by (cases b)
  have ib: "list_all (inert (skippedFeaturesHash env)) bpre"
       "list_all (inert (skippedFeaturesHash env)) bpath"
       "inert_blocks (skippedFeaturesHash env) blocks"
    using Cons.prems(1) by (simp_all add: inert_blocks_def b)
  have ins: "ins = pre @ fill_block (bpre, bpath) @ (concat (map fill_block blocks) @ rest)"
    using Cons.prems(3) b by simp
  from run_fill_block[OF assms ib(1,2) ins Cons.prems(4)]
  obtain s1 where s1: "execute_loop env ins s = execute_loop env ins s1"
    "cursor s1 = length pre + length (fill_block (bpre, bpath))"
    "pendingFill s1 = (if batchSize env \<noteq> 0
                                then (if pendingFill s > batchSize env then 0 else pendingFill s) + 1
                                else (if pendingFill s > batchSize env then 0 else pendingFill s))"
    "fill_calls (trace s1) = fill_calls (trace s)
                 + (if pendingFill s > batchSize env then 1 else 0)
                 + (if batchSize env \<noteq> 0 then 0 else 1)" by blast
  have ins2: "ins = (pre @ fill_block (bpre, bpath)) @ concat (map fill_block blocks) @ rest"
    using ins by simp
  have c: "cursor s1 = length (pre @ fill_block (bpre, bpath))" using s1(2) by simp
  from Cons.IH[OF ib(3) Cons.prems(2) ins2 c]
  obtain s' where s': "execute_loop env ins s1 = Some (None, s')"
     "fill_calls (trace s') = fill_calls (trace s1)
                 + flushes (batchSize env) (pendingFill s1) (length blocks)" by blast
  show ?case
    using s1(1) s'(1) s'(2) s1(3,4)
    by (intro exI[of _ s']) (simp add: Let_def)
qed

lemma flushes_unbatched: "flushes 0 0 n = n"
  by (induction n) simp_all

lemma flushes_250: "flushes 200 0 250 = 2"
  by code_simp

lemma run_fill_style_then_blocks:
  assumes "featureCallback env = None" "opt_hitExtent env = None"
    and "inert_blocks (skippedFeaturesHash env) blocks"
    and "list_all (inert (skippedFeaturesHash env)) rest"
  shows "\<exists>s'. execute_loop env (SET_FILL_STYLE style align # concat (map fill_block blocks) @ rest)
                 (initial_exec_state a) = Some (None, s') \<and>
              fill_calls (trace s') = flushes (batchSize env) 0 (length blocks)"
proof -
  let ?ins = "SET_FILL_STYLE style align # concat (map fill_block blocks) @ rest"
  let ?s0 = "initial_exec_state a"
  let ?s1 = "advance (emit [Ctx_fillStyle style] (?s0\<lparr>alignFill := align\<rparr>))"
  have "step env (?ins ! cursor ?s0) ?s0 = Continue ?s1"
    by (simp add: initial_exec_state_def Let_def)
  moreover have "cursor ?s0 < length ?ins" by (simp add: initial_exec_state_def)
  ultimately have e1: "execute_loop env ?ins ?s0 = execute_loop env ?ins ?s1"
    by (intro execute_loop_continue)
  have ins: "?ins = [SET_FILL_STYLE style align] @ concat (map fill_block blocks) @ rest" by simp
  have c: "cursor ?s1 = length [SET_FILL_STYLE style align]"
    by (simp add: advance_def emit_def initial_exec_state_def)
  from run_fill_blocks[OF assms(1,2) assms(3,4) ins c]
  obtain s' where "execute_loop env ?ins ?s1 = Some (None, s')"
    "fill_calls (trace s') = fill_calls (trace ?s1)
         + flushes (batchSize env) (pendingFill ?s1) (length blocks)" by blast
  moreover have "fill_calls (trace ?s1) = 0" "pendingFill ?s1 = 0"
    by (simp_all add: advance_def emit_def initial_exec_state_def)
  ultimately show ?thesis using e1 by (intro exI[of _ s']) simp
qed

text \<open>
  Claim C1. An Executor replays its own render stream, overlaps being false: the fill
  style is set, then come 250 filled shapes one after the other, each with its own
  \<open>BEGIN_PATH\<close>, its path instructions and its \<open>FILL\<close>, with or without a \<open>STROKE\<close>
  and stroke styles, inside the geometry brackets of features that have a geometry and
  are not skipped. The replay returns and makes exactly 2 calls of the surface's fill
  primitive, whatever \<open>alignFill_\<close> was before. When overlaps is true, or when the same
  stream is handed over as an array that is not the Executor's own render stream, the
  batch size is 0, every \<open>FILL\<close> calls the fill primitive at once, and the replay makes
  250 such calls.
\<close>

theorem batched_fill_blocks_flush_twice:
  fixes hash :: "(nat \<times> bool) list" and hs :: "instruction list" and ex :: executor
    and style :: string and align :: bool and a :: bool
  assumes "inert_blocks hash blocks" and "list_all (inert hash) rest" and "length blocks = 250"
  defines "stream \<equiv> SET_FILL_STYLE style align # concat (map fill_block blocks) @ rest"
  shows "(\<exists>s. execute isects
                 \<lparr>render_instructions = stream, hit_instructions = hs, overlaps = False,
                  exec_alignFill = a\<rparr> hash
               = Some (None, s) \<and> fill_calls (trace s) = 2) \<and>
         (\<exists>s. execute isects
                 \<lparr>render_instructions = stream, hit_instructions = hs, overlaps = True,
                  exec_alignFill = a\<rparr> hash
               = Some (None, s) \<and> fill_calls (trace s) = 250) \<and>
         (\<exists>s. execute_priv isects ex hash (Other_instructions stream)
                 (None :: (feature \<Rightarrow> surface_call list \<Rightarrow> unit option) option) None
               = Some (None, s) \<and> fill_calls (trace s) = 250) \<and>
         (\<forall>x ref. ref \<noteq> Own_instructions \<or> overlaps x \<longrightarrow> batchSize_of x ref = 0) \<and>
         (\<forall>(env :: unit replay_env) s. batchSize env = 0 \<longrightarrow> step env FILL s = Continue (advance (fill s)))"
proof (intro conjI)
  show "\<exists>s. execute isects
                 \<lparr>render_instructions = stream, hit_instructions = hs, overlaps = False,
                  exec_alignFill = a\<rparr> hash
               = Some (None, s) \<and> fill_calls (trace s) = 2"
    unfolding execute_def execute_priv_def stream_def
    using run_fill_style_then_blocks[of
        "\<lparr>batchSize = 200, skippedFeaturesHash = hash, featureCallback = None,
          opt_hitExtent = None, intersects = isects\<rparr> :: unit replay_env" blocks rest style align a]
      assms(1,2,3)
    by (simp add: batchSize_of_def flushes_250)
  show "\<exists>s. execute isects
                 \<lparr>render_instructions = stream, hit_instructions = hs, overlaps = True,
                  exec_alignFill = a\<rparr> hash
               = Some (None, s) \<and> fill_calls (trace s) = 250"
    unfolding execute_def execute_priv_def stream_def
    using run_fill_style_then_blocks[of
        "\<lparr>batchSize = 0, skippedFeaturesHash = hash, featureCallback = None,
          opt_hitExtent = None, intersects = isects\<rparr> :: unit replay_env" blocks rest style align a]
      assms(1,2,3)
    by (simp add: batchSize_of_def flushes_unbatched)
  show "\<exists>s. execute_priv isects ex hash (Other_instructions stream)
                 (None :: (feature \<Rightarrow> surface_call list \<Rightarrow> unit option) option) None
               = Some (None, s) \<and> fill_calls (trace s) = 250"
    unfolding execute_priv_def stream_def
    using run_fill_style_then_blocks[of
        "\<lparr>batchSize = 0, skippedFeaturesHash = hash, featureCallback = None,
          opt_hitExtent = None, intersects = isects\<rparr> :: unit replay_env" blocks rest style align
        "exec_alignFill ex"]
      assms(1,2,3)
    by (simp add: batchSize_of_def flushes_unbatched)
  show "\<forall>x ref. ref \<noteq> Own_instructions \<or> overlaps x \<longrightarrow> batchSize_of x ref = 0"
    by (simp add: batchSize_of_def)
  show "\<forall>(env :: unit replay_env) s. batchSize env = 0 \<longrightarrow> step env FILL s = Continue (advance (fill s))"
    by simp
qed

theorem batched_fill_blocks_flush_twice_witness:
  "inert_blocks []
     (([BEGIN_GEOMETRY (feat 1) 0], [MOVE_TO_LINE_TO 0 8, CLOSE_PATH])
        # replicate 249 ([STROKE, END_GEOMETRY (feat 1), BEGIN_GEOMETRY (feat 1) 0],
                         [MOVE_TO_LINE_TO 0 8, CLOSE_PATH])) \<and>
   list_all (inert []) [STROKE, END_GEOMETRY (feat 1)] \<and>
   length (([BEGIN_GEOMETRY (feat 1) 0], [MOVE_TO_LINE_TO 0 8, CLOSE_PATH])
        # replicate 249 ([STROKE, END_GEOMETRY (feat 1), BEGIN_GEOMETRY (feat 1) 0],
                         [MOVE_TO_LINE_TO 0 8, CLOSE_PATH])) = 250 \<and>
   (\<exists>s. execute boxes_intersect
          \<lparr>render_instructions =
              SET_FILL_STYLE ''red'' False
                # concat (map fill_block
                    (([BEGIN_GEOMETRY (feat 1) 0], [MOVE_TO_LINE_TO 0 8, CLOSE_PATH])
                       # replicate 249 ([STROKE, END_GEOMETRY (feat 1), BEGIN_GEOMETRY (feat 1) 0],
                                        [MOVE_TO_LINE_TO 0 8, CLOSE_PATH])))
                @ [STROKE, END_GEOMETRY (feat 1)],
           hit_instructions = [], overlaps = False, exec_alignFill = False\<rparr> []
        = Some (None, s) \<and> fill_calls (trace s) = 2)"
proof -
  let ?blocks = "([BEGIN_GEOMETRY (feat 1) 0], [MOVE_TO_LINE_TO 0 8, CLOSE_PATH])
        # replicate 249 ([STROKE, END_GEOMETRY (feat 1), BEGIN_GEOMETRY (feat 1) 0],
                         [MOVE_TO_LINE_TO 0 8, CLOSE_PATH])"
  have h1: "inert_blocks [] ?blocks"
    by (simp add: inert_blocks_def list_all_iff feat_def)
  have h2: "list_all (inert []) [STROKE, END_GEOMETRY (feat 1)]" by simp
  have h3: "length ?blocks = 250" by simp
  from batched_fill_blocks_flush_twice[OF h1 h2 h3, of boxes_intersect "''red''" False "[]" False]
  show ?thesis using h1 h2 h3 by blast
qed

text \<open>
  Claim C9, as amended. The replay is at a \<open>BEGIN_GEOMETRY\<close> whose skip field is \<open>e\<close>, the
  index of the block's \<open>END_GEOMETRY\<close>. With a hit extent that the extent of the feature's
  geometry does not intersect, and the feature not listed in \<open>skippedFeaturesHash\<close>, the
  cursor goes to \<open>e + 1\<close> and the replay goes on from there with no call added: neither
  the block's instructions nor the feature callback run. For a feature listed in
  \<open>skippedFeaturesHash\<close> the cursor goes to \<open>e\<close> itself, whatever the hit extent, so the
  \<open>END_GEOMETRY\<close> is replayed and the feature callback is called with the feature; a
  truthy result is returned.
\<close>

theorem hit_extent_skips_block_skipped_feature_reaches_callback:
  assumes "cursor s = b" and "b < length ins" and "ins ! b = BEGIN_GEOMETRY f e"
  shows "(opt_hitExtent env = Some hit \<and> feature_extent f = Some ext \<and>
          \<not> intersects env hit ext \<and> \<not> is_skipped env f
            \<longrightarrow> step env (ins ! b) s = Continue (s\<lparr>cursor := e + 1\<rparr>) \<and>
                execute_loop env ins s = execute_loop env ins (s\<lparr>cursor := e + 1\<rparr>)) \<and>
         (is_skipped env f
            \<longrightarrow> step env (ins ! b) s = Continue (s\<lparr>cursor := e\<rparr>) \<and>
                execute_loop env ins s = execute_loop env ins (s\<lparr>cursor := e\<rparr>) \<and>
                (e < length ins \<and> ins ! e = END_GEOMETRY f \<and> featureCallback env = Some callback
                   \<longrightarrow> execute_loop env ins s =
                         (case callback f (trace s) of
                            Some r \<Rightarrow> Some (Some r, emit [FeatureCallback f] (s\<lparr>cursor := e\<rparr>))
                          | None \<Rightarrow>
                              execute_loop env ins
                                (advance (emit [FeatureCallback f] (s\<lparr>cursor := e\<rparr>))))))"
proof (intro conjI impI)
  assume a: "opt_hitExtent env = Some hit \<and> feature_extent f = Some ext \<and>
          \<not> intersects env hit ext \<and> \<not> is_skipped env f"
  then show st: "step env (ins ! b) s = Continue (s\<lparr>cursor := e + 1\<rparr>)"
    using assms(3) by simp
  show "execute_loop env ins s = execute_loop env ins (s\<lparr>cursor := e + 1\<rparr>)"
    using execute_loop_continue[of s ins env "s\<lparr>cursor := e + 1\<rparr>"] st assms(1,2) by simp
next
  assume a: "is_skipped env f"
  then show st: "step env (ins ! b) s = Continue (s\<lparr>cursor := e\<rparr>)"
    using assms(3) by simp
  show e1: "execute_loop env ins s = execute_loop env ins (s\<lparr>cursor := e\<rparr>)"
    using execute_loop_continue[of s ins env "s\<lparr>cursor := e\<rparr>"] st assms(1,2) by simp
  assume c: "e < length ins \<and> ins ! e = END_GEOMETRY f \<and> featureCallback env = Some callback"
  show "execute_loop env ins s =
          (case callback f (trace s) of
             Some r \<Rightarrow> Some (Some r, emit [FeatureCallback f] (s\<lparr>cursor := e\<rparr>))
           | None \<Rightarrow> execute_loop env ins (advance (emit [FeatureCallback f] (s\<lparr>cursor := e\<rparr>))))"
  proof (cases "callback f (trace s)")
    case None
    then have "step env (ins ! cursor (s\<lparr>cursor := e\<rparr>)) (s\<lparr>cursor := e\<rparr>)
               = Continue (advance (emit [FeatureCallback f] (s\<lparr>cursor := e\<rparr>)))"
      using c by simp
    from execute_loop_continue[OF _ this] c e1 None show ?thesis by simp
  next
    case (Some r)
    then have "step env (ins ! cursor (s\<lparr>cursor := e\<rparr>)) (s\<lparr>cursor := e\<rparr>)
               = Return r (emit [FeatureCallback f] (s\<lparr>cursor := e\<rparr>))"
      using c by simp
    from execute_loop_return[OF _ this] c e1 Some show ?thesis by simp
  qed
qed

theorem hit_extent_skips_block_skipped_feature_reaches_callback_witness:
  "cursor (initial_exec_state False) = 0 \<and> 0 < length hit_stream \<and>
   hit_stream ! 0 = BEGIN_GEOMETRY (feat 1) 3 \<and>
   opt_hitExtent (hit_env []) = Some (5, 5, 6, 6) \<and> feature_extent (feat 1) = Some (0, 0, 1, 1) \<and>
   \<not> intersects (hit_env []) (5, 5, 6, 6) (0, 0, 1, 1) \<and> \<not> is_skipped (hit_env []) (feat 1) \<and>
   step (hit_env []) (hit_stream ! 0) (initial_exec_state False)
     = Continue ((initial_exec_state False)\<lparr>cursor := 4\<rparr>) \<and>
   execute_loop (hit_env []) hit_stream (initial_exec_state False)
     = Some (None, (initial_exec_state False)\<lparr>cursor := 4\<rparr>) \<and>
   is_skipped (hit_env [(1, True)]) (feat 1) \<and>
   3 < length hit_stream \<and> hit_stream ! 3 = END_GEOMETRY (feat 1) \<and>
   featureCallback (hit_env [(1, True)]) = Some (\<lambda>f calls. Some f) \<and>
   step (hit_env [(1, True)]) (hit_stream ! 0) (initial_exec_state False)
     = Continue ((initial_exec_state False)\<lparr>cursor := 3\<rparr>) \<and>
   execute_loop (hit_env [(1, True)]) hit_stream (initial_exec_state False)
     = Some (Some (feat 1), (initial_exec_state False)\<lparr>cursor := 3, trace := [FeatureCallback (feat 1)]\<rparr>)"
proof -
  have h1: "cursor (initial_exec_state False) = 0" by (simp add: initial_exec_state_def)
  have h2: "0 < length hit_stream" by (simp add: hit_stream_def)
  have h3: "hit_stream ! 0 = BEGIN_GEOMETRY (feat 1) 3" by (simp add: hit_stream_def)
  have a: "opt_hitExtent (hit_env []) = Some (5, 5, 6, 6) \<and> feature_extent (feat 1) = Some (0, 0, 1, 1) \<and>
       \<not> intersects (hit_env []) (5, 5, 6, 6) (0, 0, 1, 1) \<and> \<not> is_skipped (hit_env []) (feat 1)"
    by (simp add: hit_env_def feat_def is_skipped_def)
  have b: "is_skipped (hit_env [(1, True)]) (feat 1)"
    by (simp add: hit_env_def feat_def is_skipped_def)
  have c: "3 < length hit_stream \<and> hit_stream ! 3 = END_GEOMETRY (feat 1) \<and>
       featureCallback (hit_env [(1, True)]) = Some (\<lambda>f calls. Some f)"
    by (simp add: hit_env_def hit_stream_def)
  have d: "execute_loop (hit_env []) hit_stream ((initial_exec_state False)\<lparr>cursor := 3 + 1\<rparr>)
        = Some (None, (initial_exec_state False)\<lparr>cursor := 4\<rparr>)"
    by (subst execute_loop.simps)
       (simp add: hit_stream_def initial_exec_state_def finish_def)
  note A = hit_extent_skips_block_skipped_feature_reaches_callback
             [OF h1 h2 h3, of "hit_env []" "(5, 5, 6, 6)" "(0, 0, 1, 1)", THEN conjunct1, rule_format, OF a]
  note B = hit_extent_skips_block_skipped_feature_reaches_callback
             [OF h1 h2 h3, of "hit_env [(1, True)]" _ _ "\<lambda>f calls. Some f", THEN conjunct2, rule_format, OF b]
  have B3: "execute_loop (hit_env [(1, True)]) hit_stream (initial_exec_state False)
     = Some (Some (feat 1), (initial_exec_state False)\<lparr>cursor := 3, trace := [FeatureCallback (feat 1)]\<rparr>)"
    using B[THEN conjunct2, THEN conjunct2, rule_format, OF c]
    by (simp add: emit_def initial_exec_state_def)
  show ?thesis
    using h1 h2 h3 a b c A B d B3 by simp
qed

text \<open>
  Claim C9 as stated fails for a feature that is listed in \<open>skippedFeaturesHash\<close> and
  whose extent does not intersect the hit extent: the test for skipped features comes
  first, the cursor goes to the \<open>END_GEOMETRY\<close> (index 3 here, not 4), and the feature
  callback is called with that feature.
\<close>

theorem skipped_feature_outside_hit_extent_counterexample:
  "opt_hitExtent (hit_env [(1, True)]) = Some (5, 5, 6, 6) \<and>
   feature_extent (feat 1) = Some (0, 0, 1, 1) \<and>
   \<not> intersects (hit_env [(1, True)]) (5, 5, 6, 6) (0, 0, 1, 1) \<and>
   is_skipped (hit_env [(1, True)]) (feat 1) \<and>
   hit_stream ! 0 = BEGIN_GEOMETRY (feat 1) 3 \<and> hit_stream ! 3 = END_GEOMETRY (feat 1) \<and>
   step (hit_env [(1, True)]) (hit_stream ! 0) (initial_exec_state False)
     = Continue ((initial_exec_state False)\<lparr>cursor := 3\<rparr>) \<and>
   step (hit_env [(1, True)]) (hit_stream ! 0) (initial_exec_state False)
     \<noteq> Continue ((initial_exec_state False)\<lparr>cursor := 3 + 1\<rparr>) \<and>
   execute_loop (hit_env [(1, True)]) hit_stream (initial_exec_state False)
     = Some (Some (feat 1),
             (initial_exec_state False)\<lparr>cursor := 3, trace := [FeatureCallback (feat 1)]\<rparr>)"
proof -
  have st: "step (hit_env [(1, True)]) (hit_stream ! 0) (initial_exec_state False)
     = Continue ((initial_exec_state False)\<lparr>cursor := 3\<rparr>)"
    by (simp add: hit_env_def hit_stream_def feat_def is_skipped_def)
  have lt: "cursor (initial_exec_state False) < length hit_stream"
    by (simp add: initial_exec_state_def hit_stream_def)
  have e1: "execute_loop (hit_env [(1, True)]) hit_stream (initial_exec_state False)
        = execute_loop (hit_env [(1, True)]) hit_stream ((initial_exec_state False)\<lparr>cursor := 3\<rparr>)"
    using execute_loop_continue[OF lt] st by (simp add: initial_exec_state_def)
  have e2: "execute_loop (hit_env [(1, True)]) hit_stream ((initial_exec_state False)\<lparr>cursor := 3\<rparr>)
        = Some (Some (feat 1),
             (initial_exec_state False)\<lparr>cursor := 3, trace := [FeatureCallback (feat 1)]\<rparr>)"
    by (rule execute_loop_return)
       (simp_all add: hit_env_def hit_stream_def initial_exec_state_def emit_def)
  have ne: "(initial_exec_state False)\<lparr>cursor := 3\<rparr> \<noteq> (initial_exec_state False)\<lparr>cursor := 3 + 1\<rparr>"
    by (simp add: initial_exec_state_def)
  show ?thesis
    using st e1 e2 ne by (simp add: hit_env_def hit_stream_def feat_def is_skipped_def)
qed

section \<open>Properties of the hit detection over all executors\<close>








end
